theory Spec2Isabelle
  imports Main "HOL-Library.Word" "HOL-Library.Char_ord" "HOL-Library.List_Lexorder"
    "HOL-Library.Multiset"
begin

section \<open>The asset manager of xenon: data model\<close>

text \<open>
  The development embeds \<^verbatim>\<open>xenon/core/asset_manager.cpp\<close>. The header
  \<^verbatim>\<open>asset_manager.h\<close> with the declarations of \<^verbatim>\<open>UUID\<close>, \<^verbatim>\<open>AssetType\<close>,
  \<^verbatim>\<open>AssetMetadata\<close>, \<^verbatim>\<open>Asset\<close>, \<^verbatim>\<open>Directory\<close> and \<^verbatim>\<open>AssetManager\<close> is not part
  of the sources at hand; the types below follow the fields the functions use and the
  data model of the specification.
\<close>

text \<open>
  Modelled from the spec: the class \<^verbatim>\<open>UUID\<close> (an opaque 128-bit value with a
  distinguished none value; \<^verbatim>\<open>isValid\<close> is true iff the value is not the sentinel).
\<close>

type_synonym UUID = "128 word"

definition UUID_None :: UUID where
  "UUID_None = 0"

definition isValid :: "UUID \<Rightarrow> bool" where
  "isValid u = (u \<noteq> UUID_None)"

text \<open>
  Modelled from the spec: the enumeration \<^verbatim>\<open>AssetType\<close>, in the declared order
  None, Directory, Model, Texture (\<^verbatim>\<open>AssetType::None\<close> is written \<open>NoneT\<close>), and
  the ordinal that \<^verbatim>\<open><\<close> on the enumeration compares.
\<close>

datatype AssetType = NoneT | Directory | Model | Texture

fun AssetType_ordinal :: "AssetType \<Rightarrow> nat" where
  "AssetType_ordinal NoneT = 0"
| "AssetType_ordinal Directory = 1"
| "AssetType_ordinal Model = 2"
| "AssetType_ordinal Texture = 3"

record AssetMetadata =
  handle :: UUID
  path :: string
  type :: AssetType

record RuntimeData =
  filename :: string
  extension :: string
  parent :: UUID
  loaded :: bool

text \<open>
  An object of class \<^verbatim>\<open>Asset\<close> or of its subclass \<^verbatim>\<open>Directory\<close>. The field
  \<open>children\<close> is \<open>None\<close> for a plain \<^verbatim>\<open>Asset\<close> object and \<open>Some cs\<close> for a
  \<^verbatim>\<open>Directory\<close> object with the vector \<open>cs\<close>. The field \<open>objId\<close> is not a field
  of the source: it numbers the allocations (\<^verbatim>\<open>new\<close>), so that the model can tell
  whether the object a local pointer refers to is still the one held by the store.
\<close>

record Asset =
  metadata :: AssetMetadata
  runtimeData :: RuntimeData
  children :: "UUID list option"
  objId :: nat

text \<open>
  The two loader functions that \<^verbatim>\<open>createAssetManager\<close> binds. Their bodies live in
  other files; what a call does is a parameter of \<open>loadAssetData\<close>.
\<close>

datatype AssetLoadFunc = loadModelAsset | loadTextureAsset

text \<open>
  \<^verbatim>\<open>AssetSerializer{ nullptr, loadModelAsset }\<close>: two function pointers, the second
  one read as \<^verbatim>\<open>.load\<close>; a null pointer is \<open>None\<close>. The name of the first member
  is not visible in the source.
\<close>

record AssetSerializer =
  serialize :: "AssetLoadFunc option"
  load :: "AssetLoadFunc option"

text \<open>
  The manager. The three containers are association lists read through \<open>map_of\<close>,
  in the order of insertion. \<open>minted\<close> and \<open>allocated\<close> are not fields of the source:
  they count the calls of \<^verbatim>\<open>UUID()\<close> and of \<^verbatim>\<open>new\<close> so far, the global state those
  two draw from.
\<close>

record AssetManager =
  projectFolder :: string
  serializers :: "(AssetType \<times> AssetSerializer) list"
  registry :: "(string \<times> AssetMetadata) list"
  assets :: "(UUID \<times> Asset) list"
  sortedAssets :: "(UUID \<times> Asset) list"
  minted :: nat
  allocated :: nat

text \<open>
  What the source can do besides returning: \<^verbatim>\<open>std::map::at\<close> on a missing key throws
  \<^verbatim>\<open>std::out_of_range\<close>; the other three are undefined behaviour of C++ (a
  \<^verbatim>\<open>static_cast<Directory*>\<close> of an object that is no \<^verbatim>\<open>Directory\<close>, a read through
  a pointer whose object was deleted, control reaching the end of a non-void function).
\<close>

datatype error = OutOfRange | BadCast | UseAfterFree | MissingReturn

section \<open>Containers and strings of the standard library\<close>

text \<open>\<^verbatim>\<open>m.find(k) != m.end()\<close>\<close>

definition contains :: "('k \<times> 'v) list \<Rightarrow> 'k \<Rightarrow> bool" where
  "contains al k = (map_of al k \<noteq> None)"

text \<open>\<^verbatim>\<open>m.emplace(k, v)\<close>: inserts only when the key is absent.\<close>

definition emplace :: "'k \<Rightarrow> 'v \<Rightarrow> ('k \<times> 'v) list \<Rightarrow> ('k \<times> 'v) list" where
  "emplace k v al = (if contains al k then al else al @ [(k, v)])"

text \<open>\<^verbatim>\<open>m[k] = v\<close>: replaces the value of a present key, inserts an absent one.\<close>

fun assign :: "'k \<Rightarrow> 'v \<Rightarrow> ('k \<times> 'v) list \<Rightarrow> ('k \<times> 'v) list" where
  "assign k v [] = [(k, v)]"
| "assign k v (p # ps) = (if fst p = k then (k, v) # ps else p # assign k v ps)"

text \<open>
  \<^verbatim>\<open>s.find_last_of(c)\<close>: the index of the last occurrence of \<open>c\<close>; \<open>None\<close> is
  \<^verbatim>\<open>std::string::npos\<close>.
\<close>

fun find_last_of :: "string \<Rightarrow> char \<Rightarrow> nat option" where
  "find_last_of [] c = None"
| "find_last_of (x # xs) c =
     (case find_last_of xs c of
        Some i \<Rightarrow> Some (Suc i)
      | None \<Rightarrow> if x = c then Some 0 else None)"

text \<open>
  \<^verbatim>\<open>s.substr(pos, count)\<close>, with \<open>None\<close> for the default count \<^verbatim>\<open>npos\<close>. The
  source's \<^verbatim>\<open>substr\<close> throws when \<open>pos\<close> exceeds the length; \<open>createEmptyAsset\<close>
  calls it with \<open>pos = 0\<close> or with one more than an index of the string only (lemma
  \<open>find_last_of_less\<close>), where it returns.
\<close>

fun substr :: "string \<Rightarrow> nat \<Rightarrow> nat option \<Rightarrow> string" where
  "substr s pos None = drop pos s"
| "substr s pos (Some n) = take n (drop pos s)"

section \<open>Creating assets\<close>

text \<open>
  \<^verbatim>\<open>createEmptyAsset(manager, path, type, parent)\<close>. \<open>gen\<close> is the sequence of
  values that \<^verbatim>\<open>UUID()\<close> produces: the source of the generator is not at hand, and
  nothing is assumed of it. The manager is returned because of the two counters; its
  containers are not touched.
\<close>

definition createEmptyAsset ::
  "(nat \<Rightarrow> UUID) \<Rightarrow> AssetManager \<Rightarrow> string \<Rightarrow> AssetType \<Rightarrow> UUID \<Rightarrow> Asset \<times> AssetManager" where
  "createEmptyAsset gen manager pth ty prnt =
     (let filenameIndex = find_last_of pth CHR ''/'';
          extentionIndex = find_last_of pth CHR ''.'';
          fname = (case filenameIndex of
                     None \<Rightarrow> ''''
                   | Some i \<Rightarrow>
                       if i + 1 = length pth then substr pth 0 (Some i)
                       else substr pth (i + 1) None);
          ext = (case extentionIndex of
                   Some i \<Rightarrow> substr pth (i + 1) None
                 | None \<Rightarrow> '''');
          md = (case map_of (registry manager) pth of
                  Some stored \<Rightarrow>
                    \<lparr>handle = handle stored, path = pth,
                     type = (if type stored \<noteq> ty then NoneT else type stored)\<rparr>
                | None \<Rightarrow>
                    \<lparr>handle = gen (minted manager), path = pth, type = ty\<rparr>);
          asset = \<lparr>metadata = md,
                   runtimeData = \<lparr>filename = fname, extension = ext, parent = prnt,
                                  loaded = False\<rparr>,
                   children = (if ty = Directory then Some [] else None),
                   objId = allocated manager\<rparr>
      in (asset,
          manager\<lparr>minted := (if contains (registry manager) pth then minted manager
                             else minted manager + 1),
                  allocated := allocated manager + 1\<rparr>))"

text \<open>
  Modelled from the spec: \<^verbatim>\<open>copyAssetMetadata(source, target)\<close>, declared outside
  the sources at hand. It copies the metadata (and the data derived with it at creation)
  of the transient object onto the caller's object, which stays the object it was.
\<close>

definition copyAssetMetadata :: "Asset \<Rightarrow> Asset \<Rightarrow> Asset" where
  "copyAssetMetadata source target =
     target\<lparr>metadata := metadata source, runtimeData := runtimeData source\<rparr>"

text \<open>
  \<^verbatim>\<open>createEmbeddedAsset(manager, type, dataAsset, parentPath, internalPath)\<close>. The
  macros \<^verbatim>\<open>XE_HOST_PATH_BEGIN\<close> and \<^verbatim>\<open>XE_HOST_PATH_END\<close> are defined elsewhere and
  are the parameters \<open>hostBegin\<close> and \<open>hostEnd\<close>. The result is the caller's
  \<open>dataAsset\<close> after the copy; the transient object is deleted.
\<close>

definition createEmbeddedAsset ::
  "(nat \<Rightarrow> UUID) \<Rightarrow> string \<Rightarrow> string \<Rightarrow> AssetManager \<Rightarrow> AssetType \<Rightarrow> Asset \<Rightarrow> string \<Rightarrow> string
     \<Rightarrow> error + (Asset \<times> AssetManager)" where
  "createEmbeddedAsset gen hostBegin hostEnd manager ty dataAsset parentPath internalPath =
     (case map_of (registry manager) parentPath of
        None \<Rightarrow> Inl OutOfRange
      | Some stored \<Rightarrow>
          (let parentID = handle stored;
               embeddedPath = hostBegin @ parentPath @ hostEnd @ internalPath;
               (metaAsset, manager') = createEmptyAsset gen manager embeddedPath ty parentID
           in Inr (copyAssetMetadata metaAsset dataAsset, manager')))"

section \<open>Loading\<close>

text \<open>
  \<^verbatim>\<open>loadAssetData(manager, asset)\<close>. \<open>call f\<close> is what the loader \<open>f\<close> does with
  the manager and the asset it is handed: its flag, and the two as it leaves them. The
  result is the returned flag, the manager and the object \<^verbatim>\<open>*asset\<close>.
\<close>

definition loadAssetData ::
  "(AssetLoadFunc \<Rightarrow> AssetManager \<Rightarrow> Asset \<Rightarrow> bool \<times> AssetManager \<times> Asset)
     \<Rightarrow> AssetManager \<Rightarrow> Asset \<Rightarrow> error + (bool \<times> AssetManager \<times> Asset)" where
  "loadAssetData call manager asset =
     (if type (metadata asset) = Directory then Inr (False, manager, asset)
      else
        (case map_of (serializers manager) (type (metadata asset)) of
           None \<Rightarrow> Inl OutOfRange
         | Some s \<Rightarrow>
             (case load s of
                Some loadFunc \<Rightarrow>
                  (let (ok, manager', asset') = call loadFunc manager asset
                   in Inr (ok, manager',
                           asset'\<lparr>runtimeData := (runtimeData asset')\<lparr>loaded := ok\<rparr>\<rparr>))
              | None \<Rightarrow> Inl MissingReturn)))"

section \<open>Importing and scanning\<close>

text \<open>
  The two steps that \<^verbatim>\<open>importAsset\<close> and \<^verbatim>\<open>updateDirectoryAssets\<close> both take
  with the object they created: register its metadata when its path is not in the
  registry, and store it under its handle (the object stored there before is deleted).
\<close>

definition registerIfNeeded :: "Asset \<Rightarrow> AssetManager \<Rightarrow> AssetManager" where
  "registerIfNeeded asset manager =
     (if \<not> contains (registry manager) (path (metadata asset))
      then manager\<lparr>registry := emplace (path (metadata asset)) (metadata asset) (registry manager)\<rparr>
      else manager)"

definition storeAsset :: "Asset \<Rightarrow> AssetManager \<Rightarrow> AssetManager" where
  "storeAsset asset manager =
     manager\<lparr>assets := assign (handle (metadata asset)) asset (assets manager)\<rparr>"

text \<open>
  \<^verbatim>\<open>importAsset(manager, path, parent)\<close>. \<open>getAssetTypeFromPath\<close> is defined in
  another file and is a parameter.
\<close>

definition importAsset ::
  "(nat \<Rightarrow> UUID) \<Rightarrow> (string \<Rightarrow> AssetType) \<Rightarrow> AssetManager \<Rightarrow> string \<Rightarrow> UUID \<Rightarrow> AssetManager" where
  "importAsset gen getAssetTypeFromPath manager pth prnt =
     (let ty = getAssetTypeFromPath pth;
          (asset, manager1) = createEmptyAsset gen manager pth ty prnt
      in storeAsset asset (registerIfNeeded asset manager1))"

text \<open>
  What \<^verbatim>\<open>std::filesystem::directory_iterator\<close> yields for a directory: its entries in
  the order of enumeration, each with its path (\<^verbatim>\<open>entry.path().generic_string()\<close>),
  a directory with its own entries.
\<close>

datatype dir_entry = File string | Dir string "dir_entry list"

text \<open>
  \<^verbatim>\<open>static_cast<Directory*>(manager->assets.at(parent))->children.push_back(h)\<close>
\<close>

definition addChild :: "UUID \<Rightarrow> UUID \<Rightarrow> AssetManager \<Rightarrow> error + AssetManager" where
  "addChild prnt h manager =
     (case map_of (assets manager) prnt of
        None \<Rightarrow> Inl OutOfRange
      | Some p \<Rightarrow>
          (case children p of
             None \<Rightarrow> Inl BadCast
           | Some cs \<Rightarrow>
               Inr (manager\<lparr>assets := assign prnt (p\<lparr>children := Some (cs @ [h])\<rparr>) (assets manager)\<rparr>)))"

text \<open>
  The local pointer \<^verbatim>\<open>directory\<close> of \<^verbatim>\<open>updateDirectoryAssets\<close> refers to the object
  numbered \<open>k\<close>, stored under \<open>h\<close>. The object is deleted when another one is stored
  under \<open>h\<close>; \<^verbatim>\<open>directory->metadata.handle\<close> is a valid read as long as the store still
  holds the object \<open>k\<close> there.
\<close>

definition alive :: "AssetManager \<Rightarrow> UUID \<Rightarrow> nat \<Rightarrow> bool" where
  "alive manager h k = (case map_of (assets manager) h of Some a \<Rightarrow> objId a = k | None \<Rightarrow> False)"

text \<open>
  \<^verbatim>\<open>updateDirectoryAssets(manager, path, parent)\<close>, with the entries that the
  iterator yields for \<open>path\<close>. \<open>scanEntries\<close> is the loop over them, for the directory
  object \<open>k\<close> with handle \<open>h\<close>; each iteration, and the final \<^verbatim>\<open>return\<close>, reads the
  handle through the pointer.
\<close>

fun updateDirectoryAssets ::
  "(nat \<Rightarrow> UUID) \<Rightarrow> (string \<Rightarrow> AssetType) \<Rightarrow> AssetManager \<Rightarrow> string \<Rightarrow> dir_entry list \<Rightarrow> UUID
     \<Rightarrow> error + (UUID \<times> AssetManager)"
and scanEntries ::
  "(nat \<Rightarrow> UUID) \<Rightarrow> (string \<Rightarrow> AssetType) \<Rightarrow> AssetManager \<Rightarrow> dir_entry list \<Rightarrow> UUID \<Rightarrow> nat
     \<Rightarrow> error + AssetManager" where
  "updateDirectoryAssets gen gt manager pth entries prnt =
     (let (created, manager1) = createEmptyAsset gen manager pth Directory prnt;
          directory = created\<lparr>runtimeData := (runtimeData created)\<lparr>loaded := True\<rparr>\<rparr>;
          h = handle (metadata directory);
          manager2 = storeAsset directory (registerIfNeeded directory manager1)
      in case (if isValid prnt then addChild prnt h manager2 else Inr manager2) of
           Inl e \<Rightarrow> Inl e
         | Inr manager3 \<Rightarrow>
             (case scanEntries gen gt manager3 entries h (objId directory) of
                Inl e \<Rightarrow> Inl e
              | Inr manager4 \<Rightarrow> Inr (h, manager4)))"
| "scanEntries gen gt manager [] h k =
     (if alive manager h k then Inr manager else Inl UseAfterFree)"
| "scanEntries gen gt manager (File p # entries) h k =
     (if alive manager h k
      then scanEntries gen gt (importAsset gen gt manager p h) entries h k
      else Inl UseAfterFree)"
| "scanEntries gen gt manager (Dir p sub # entries) h k =
     (if alive manager h k
      then (case updateDirectoryAssets gen gt manager p sub h of
              Inl e \<Rightarrow> Inl e
            | Inr (_, manager') \<Rightarrow> scanEntries gen gt manager' entries h k)
      else Inl UseAfterFree)"

text \<open>
  The part of \<open>updateDirectoryAssets\<close> before the loop (creating, registering and storing
  the directory object and linking it to its parent), named for use in the proofs: it
  yields the directory's handle, the number of its object and the manager.
\<close>

definition enterDirectory ::
  "(nat \<Rightarrow> UUID) \<Rightarrow> AssetManager \<Rightarrow> string \<Rightarrow> UUID \<Rightarrow> error + (UUID \<times> nat \<times> AssetManager)" where
  "enterDirectory gen manager pth prnt =
     (let (created, manager1) = createEmptyAsset gen manager pth Directory prnt;
          directory = created\<lparr>runtimeData := (runtimeData created)\<lparr>loaded := True\<rparr>\<rparr>;
          h = handle (metadata directory);
          manager2 = storeAsset directory (registerIfNeeded directory manager1)
      in case (if isValid prnt then addChild prnt h manager2 else Inr manager2) of
           Inl e \<Rightarrow> Inl e
         | Inr manager3 \<Rightarrow> Inr (h, objId directory, manager3))"

text \<open>The directory object that \<open>enterDirectory\<close> creates, with \<^verbatim>\<open>loaded\<close> set.\<close>

definition newDirectory :: "(nat \<Rightarrow> UUID) \<Rightarrow> AssetManager \<Rightarrow> string \<Rightarrow> UUID \<Rightarrow> Asset" where
  "newDirectory gen m pth prnt =
     (fst (createEmptyAsset gen m pth Directory prnt))
       \<lparr>runtimeData := (runtimeData (fst (createEmptyAsset gen m pth Directory prnt)))\<lparr>loaded := True\<rparr>\<rparr>"

section \<open>Sorted view and compaction\<close>

text \<open>
  \<^verbatim>\<open>std::tolower\<close> in the C locale, on a character of a file name: the letters A to Z
  are folded, every other byte stays (a byte above 127 included, which the source passes
  as a negative \<^verbatim>\<open>char\<close>, outside the values the function is defined for).
\<close>

definition tolower :: "char \<Rightarrow> char" where
  "tolower c = (if CHR ''A'' \<le> c \<and> c \<le> CHR ''Z'' then char_of (of_char c + (32::nat)) else c)"

text \<open>
  The comparison object \<^verbatim>\<open>SortAssets\<close>. \<^verbatim>\<open><\<close> on \<^verbatim>\<open>std::string\<close> is the
  lexicographic order of the characters' codes, which is \<open><\<close> on \<open>string\<close> here.
\<close>

definition SortAssets :: "UUID \<times> Asset \<Rightarrow> UUID \<times> Asset \<Rightarrow> bool" where
  "SortAssets a b =
     (let aFilename = map tolower (filename (runtimeData (snd a)));
          bFilename = map tolower (filename (runtimeData (snd b)))
      in AssetType_ordinal (type (metadata (snd a))) < AssetType_ordinal (type (metadata (snd b)))
         \<or> type (metadata (snd a)) = type (metadata (snd b)) \<and> aFilename < bFilename)"

text \<open>
  \<^verbatim>\<open>std::sort(first, last, comp)\<close>. The standard fixes the result up to the order of
  elements that the comparison does not separate; the model sorts by insertion, and the theorems
  about it state what every conforming \<^verbatim>\<open>std::sort\<close> guarantees.
\<close>

fun sort_insert :: "('a \<Rightarrow> 'a \<Rightarrow> bool) \<Rightarrow> 'a \<Rightarrow> 'a list \<Rightarrow> 'a list" where
  "sort_insert lt x [] = [x]"
| "sort_insert lt x (y # ys) = (if lt x y then x # y # ys else y # sort_insert lt x ys)"

fun std_sort :: "('a \<Rightarrow> 'a \<Rightarrow> bool) \<Rightarrow> 'a list \<Rightarrow> 'a list" where
  "std_sort lt [] = []"
| "std_sort lt (x # xs) = sort_insert lt x (std_sort lt xs)"

text \<open>\<^verbatim>\<open>updateAssetRegistry(manager)\<close>\<close>

definition updateAssetRegistry :: "AssetManager \<Rightarrow> AssetManager" where
  "updateAssetRegistry manager =
     manager\<lparr>sortedAssets := std_sort SortAssets (assets manager),
             registry := filter (\<lambda>entry. contains (assets manager) (handle (snd entry)))
                           (registry manager)\<rparr>"

section \<open>Construction\<close>

text \<open>
  \<^verbatim>\<open>createAssetManager(projectFolder)\<close>, with the entries of the project folder. A new
  manager has empty containers; the global pointer \<^verbatim>\<open>s_assetManager\<close> is not modelled.
\<close>

definition newAssetManager :: "string \<Rightarrow> AssetManager" where
  "newAssetManager folder =
     \<lparr>projectFolder = folder,
      serializers =
        emplace Texture \<lparr>serialize = None, load = Some loadTextureAsset\<rparr>
          (emplace Model \<lparr>serialize = None, load = Some loadModelAsset\<rparr> []),
      registry = [], assets = [], sortedAssets = [], minted = 0, allocated = 0\<rparr>"

definition createAssetManager ::
  "(nat \<Rightarrow> UUID) \<Rightarrow> (string \<Rightarrow> AssetType) \<Rightarrow> string \<Rightarrow> dir_entry list \<Rightarrow> error + AssetManager" where
  "createAssetManager gen gt folder entries =
     (case updateDirectoryAssets gen gt (newAssetManager folder) folder entries UUID_None of
        Inl e \<Rightarrow> Inl e
      | Inr (_, manager) \<Rightarrow> Inr (updateAssetRegistry manager))"

section \<open>The paths of a tree and the growth of the registry\<close>

text \<open>The paths of an entry and of everything below it, in the order of the scan.\<close>

fun entry_paths :: "dir_entry \<Rightarrow> string list" where
  "entry_paths (File p) = [p]"
| "entry_paths (Dir p sub) = p # concat (map entry_paths sub)"

text \<open>Every path of the registry keeps its entry.\<close>

definition registryGrows :: "AssetManager \<Rightarrow> AssetManager \<Rightarrow> bool" where
  "registryGrows m m' = (\<forall>p md. map_of (registry m) p = Some md \<longrightarrow> map_of (registry m') p = Some md)"

text \<open>
  The path of an entry and \<^verbatim>\<open>entry.is_directory()\<close>; the handle that the registry
  holds for a path (the none value for a path that is not registered); the handles of
  the sub-directories among some entries, in their order.
\<close>

fun entry_path :: "dir_entry \<Rightarrow> string" where
  "entry_path (File p) = p"
| "entry_path (Dir p sub) = p"

fun is_directory :: "dir_entry \<Rightarrow> bool" where
  "is_directory (File p) = False"
| "is_directory (Dir p sub) = True"

definition registeredHandle :: "AssetManager \<Rightarrow> string \<Rightarrow> UUID" where
  "registeredHandle manager p =
     (case map_of (registry manager) p of Some md \<Rightarrow> handle md | None \<Rightarrow> UUID_None)"

definition subdirHandles :: "AssetManager \<Rightarrow> dir_entry list \<Rightarrow> UUID list" where
  "subdirHandles manager es = map (registeredHandle manager) (map entry_path (filter is_directory es))"

text \<open>
  The store keeps its keys; the handle that the registry holds for a path is a key of
  the store.
\<close>

definition storeGrows :: "AssetManager \<Rightarrow> AssetManager \<Rightarrow> bool" where
  "storeGrows m m' = (fst ` set (assets m) \<subseteq> fst ` set (assets m'))"

definition pathLive :: "AssetManager \<Rightarrow> string \<Rightarrow> bool" where
  "pathLive manager p = contains (assets manager) (registeredHandle manager p)"

section \<open>The invariant of registry and store\<close>

text \<open>Every key of the live store is the handle of some entry of the registry.\<close>

definition liveAssetsRegistered :: "AssetManager \<Rightarrow> bool" where
  "liveAssetsRegistered manager =
     (\<forall>h \<in> fst ` set (assets manager). h \<in> (\<lambda>e. handle (snd e)) ` set (registry manager))"

section \<open>Concrete inputs\<close>

text \<open>A generator that counts from 1, and a manager that knows one model file.\<close>

definition example_gen :: "nat \<Rightarrow> UUID" where
  "example_gen n = of_nat (n + 1)"

definition example_registered :: AssetManager where
  "example_registered =
     (newAssetManager ''/p'')
       \<lparr>registry := [(''/p/a.model'', \<lparr>handle = 7, path = ''/p/a.model'', type = Model\<rparr>)]\<rparr>"

text \<open>
  The asset that the type-mismatch policy yields for the model file when it is declared
  a texture; a manager that knows one scene file; the caller's object for an embedded
  asset.
\<close>

definition example_mismatched :: Asset where
  "example_mismatched = fst (createEmptyAsset example_gen example_registered ''/p/a.model'' Texture 3)"

definition example_scene :: AssetManager where
  "example_scene =
     (newAssetManager ''/p'')
       \<lparr>registry := [(''/p/scene.fbx'', \<lparr>handle = 7, path = ''/p/scene.fbx'', type = Model\<rparr>)]\<rparr>"

definition example_data :: Asset where
  "example_data =
     \<lparr>metadata = \<lparr>handle = UUID_None, path = '''', type = NoneT\<rparr>,
      runtimeData = \<lparr>filename = '''', extension = '''', parent = UUID_None, loaded = True\<rparr>,
      children = None, objId = 40\<rparr>"

text \<open>A manager with one live asset: the model file imported into a new manager.\<close>

definition example_live :: AssetManager where
  "example_live = importAsset example_gen (\<lambda>p. Model) (newAssetManager ''/p'') ''/p/a.model'' 9"

text \<open>
  The manager with one live asset, and in its registry a second entry whose asset is
  gone.
\<close>

definition example_stale :: AssetManager where
  "example_stale =
     example_live\<lparr>registry := registry example_live
        @ [(''/p/gone.png'', \<lparr>handle = 99, path = ''/p/gone.png'', type = Texture\<rparr>)]\<rparr>"

text \<open>
  The directory \<^verbatim>\<open>/root\<close> with two files and a sub-directory, scanned into a new
  manager, and scanned again after \<open>updateAssetRegistry\<close>.
\<close>

definition example_entries :: "dir_entry list" where
  "example_entries = [File ''/root/b.txt'', File ''/root/a.txt'', Dir ''/root/sub'' []]"

definition example_scan1 :: "error + (UUID \<times> AssetManager)" where
  "example_scan1 =
     updateDirectoryAssets example_gen (\<lambda>p. Model) (newAssetManager ''/root'') ''/root''
       example_entries UUID_None"

definition example_scan2 :: "error + (UUID \<times> AssetManager)" where
  "example_scan2 =
     updateDirectoryAssets example_gen (\<lambda>p. Model)
       (updateAssetRegistry (snd (projr example_scan1))) ''/root'' example_entries UUID_None"

text \<open>The manager that \<open>createAssetManager\<close> builds for \<^verbatim>\<open>/root\<close>.\<close>

definition example_built :: "error + AssetManager" where
  "example_built = createAssetManager example_gen (\<lambda>p. Model) ''/root'' example_entries"

text \<open>
  A folder whose file names differ in case: by character code \<^verbatim>\<open>B.txt\<close> and
  \<^verbatim>\<open>C.txt\<close> precede \<^verbatim>\<open>a.txt\<close>.
\<close>

definition example_mixed :: "error + (UUID \<times> AssetManager)" where
  "example_mixed =
     updateDirectoryAssets example_gen (\<lambda>p. Model) (newAssetManager ''/p'') ''/p''
       [File ''/p/B.txt'', File ''/p/a.txt'', File ''/p/C.txt''] UUID_None"

section \<open>Properties\<close>

lemma find_last_of_less: "find_last_of s c = Some i \<Longrightarrow> i < length s"
  by (induction s arbitrary: i) (auto split: option.splits if_splits)

lemma find_last_of_absent: "c \<notin> set s \<Longrightarrow> find_last_of s c = None"
  by (induction s) auto

lemma find_last_of_last: "c \<notin> set t \<Longrightarrow> find_last_of (p @ c # t) c = Some (length p)"
  by (induction p) (auto simp: find_last_of_absent)

subsection \<open>Path decomposition\<close>

lemma createEmptyAsset_filename:
  "filename (runtimeData (fst (createEmptyAsset gen m pth ty prnt))) =
     (case find_last_of pth CHR ''/'' of
        None \<Rightarrow> []
      | Some i \<Rightarrow> if i + 1 = length pth then take i pth else drop (i + 1) pth)"
  by (simp add: createEmptyAsset_def Let_def split: option.splits)

lemma createEmptyAsset_extension:
  "extension (runtimeData (fst (createEmptyAsset gen m pth ty prnt))) =
     (case find_last_of pth CHR ''.'' of None \<Rightarrow> [] | Some i \<Rightarrow> drop (i + 1) pth)"
  by (simp add: createEmptyAsset_def Let_def split: option.splits)

text \<open>
  C9. The file name that \<open>createEmptyAsset\<close> computes is empty for a path without
  \<open>/\<close>, is everything before the separator for a path that ends in \<open>/\<close>, and is
  what follows the last \<open>/\<close> otherwise; the extension is what follows the last \<open>.\<close>
  of the whole path, and is empty for a path without \<open>.\<close>.
\<close>

theorem createEmptyAsset_path_decomposition:
  fixes gen m ty prnt
  defines "fname \<equiv> \<lambda>pth. filename (runtimeData (fst (createEmptyAsset gen m pth ty prnt)))"
    and "ext \<equiv> \<lambda>pth. extension (runtimeData (fst (createEmptyAsset gen m pth ty prnt)))"
  shows "(CHR ''/'' \<notin> set pth \<longrightarrow> fname pth = [])
       \<and> fname (p @ ''/'') = p
       \<and> (s \<noteq> [] \<and> CHR ''/'' \<notin> set s \<longrightarrow> fname (p @ ''/'' @ s) = s)
       \<and> (CHR ''.'' \<notin> set pth \<longrightarrow> ext pth = [])
       \<and> (CHR ''.'' \<notin> set s \<longrightarrow> ext (p @ ''.'' @ s) = s)"
proof -
  have a: "CHR ''/'' \<notin> set pth \<longrightarrow> fname pth = []"
    by (simp add: fname_def createEmptyAsset_filename find_last_of_absent)
  have "find_last_of (p @ ''/'') CHR ''/'' = Some (length p)"
    using find_last_of_last [of "CHR ''/''" "[]" p] by simp
  then have b: "fname (p @ ''/'') = p"
    by (simp add: fname_def createEmptyAsset_filename)
  have c: "s \<noteq> [] \<and> CHR ''/'' \<notin> set s \<longrightarrow> fname (p @ ''/'' @ s) = s"
    by (simp add: fname_def createEmptyAsset_filename find_last_of_last)
  have d: "CHR ''.'' \<notin> set pth \<longrightarrow> ext pth = []"
    by (simp add: ext_def createEmptyAsset_extension find_last_of_absent)
  have e: "CHR ''.'' \<notin> set s \<longrightarrow> ext (p @ ''.'' @ s) = s"
    by (simp add: ext_def createEmptyAsset_extension find_last_of_last)
  from a b c d e show ?thesis by blast
qed

theorem createEmptyAsset_path_decomposition_witness:
  "filename (runtimeData (fst (createEmptyAsset example_gen (newAssetManager []) ''abc'' Model UUID_None))) = []
   \<and> filename (runtimeData (fst (createEmptyAsset example_gen (newAssetManager []) ''/p/'' Model UUID_None))) = ''/p''
   \<and> filename (runtimeData (fst (createEmptyAsset example_gen (newAssetManager []) ''/p/a.model'' Model UUID_None))) = ''a.model''
   \<and> extension (runtimeData (fst (createEmptyAsset example_gen (newAssetManager []) ''abc'' Model UUID_None))) = []
   \<and> extension (runtimeData (fst (createEmptyAsset example_gen (newAssetManager []) ''/p/a.model'' Model UUID_None))) = ''model''"
  using createEmptyAsset_path_decomposition
          [of "''abc''" example_gen "newAssetManager []" Model UUID_None "''/p''" "''a.model''"]
        createEmptyAsset_path_decomposition
          [of "''abc''" example_gen "newAssetManager []" Model UUID_None "''/p/a''" "''model''"]
  by simp

subsection \<open>The type-mismatch policy\<close>

text \<open>
  C3. When the path is in the registry with a stored type other than the declared one,
  \<open>createEmptyAsset\<close> returns an asset of type None that carries the stored handle; the
  function returns as for any other input, and the registry is as before.
\<close>

theorem createEmptyAsset_type_mismatch:
  assumes "map_of (registry m) pth = Some stored" and "type stored \<noteq> ty"
  shows "type (metadata (fst (createEmptyAsset gen m pth ty prnt))) = NoneT
       \<and> handle (metadata (fst (createEmptyAsset gen m pth ty prnt))) = handle stored
       \<and> registry (snd (createEmptyAsset gen m pth ty prnt)) = registry m"
  using assms by (simp add: createEmptyAsset_def Let_def)

theorem createEmptyAsset_type_mismatch_witness:
  "type (metadata (fst (createEmptyAsset example_gen example_registered ''/p/a.model'' Texture 3))) = NoneT
   \<and> handle (metadata (fst (createEmptyAsset example_gen example_registered ''/p/a.model'' Texture 3))) = 7"
  using createEmptyAsset_type_mismatch
          [of example_registered "''/p/a.model''"
              "\<lparr>handle = 7, path = ''/p/a.model'', type = Model\<rparr>" Texture example_gen 3]
  by (simp add: example_registered_def)

subsection \<open>Facts about the containers and \<open>createEmptyAsset\<close>\<close>

lemma map_of_assign: "map_of (assign k v al) = (map_of al)(k \<mapsto> v)"
  by (induction al) (auto simp: fun_eq_iff)

lemma keys_assign_present: "map_of al k = Some old \<Longrightarrow> map fst (assign k v al) = map fst al"
  by (induction al) (auto split: if_splits)

lemma createEmptyAsset_frame:
  "registry (snd (createEmptyAsset gen m pth ty prnt)) = registry m"
  "assets (snd (createEmptyAsset gen m pth ty prnt)) = assets m"
  "serializers (snd (createEmptyAsset gen m pth ty prnt)) = serializers m"
  "sortedAssets (snd (createEmptyAsset gen m pth ty prnt)) = sortedAssets m"
  "projectFolder (snd (createEmptyAsset gen m pth ty prnt)) = projectFolder m"
  "allocated (snd (createEmptyAsset gen m pth ty prnt)) = allocated m + 1"
  by (simp_all add: createEmptyAsset_def Let_def)

lemma createEmptyAsset_fields:
  "path (metadata (fst (createEmptyAsset gen m pth ty prnt))) = pth"
  "parent (runtimeData (fst (createEmptyAsset gen m pth ty prnt))) = prnt"
  "loaded (runtimeData (fst (createEmptyAsset gen m pth ty prnt))) = False"
  "objId (fst (createEmptyAsset gen m pth ty prnt)) = allocated m"
  "children (fst (createEmptyAsset gen m pth ty prnt)) = (if ty = Directory then Some [] else None)"
  by (simp_all add: createEmptyAsset_def Let_def split: option.splits)

lemma createEmptyAsset_handle:
  "handle (metadata (fst (createEmptyAsset gen m pth ty prnt))) =
     (case map_of (registry m) pth of Some stored \<Rightarrow> handle stored | None \<Rightarrow> gen (minted m))"
  by (simp add: createEmptyAsset_def Let_def split: option.splits)

lemma createEmptyAsset_minted:
  "minted (snd (createEmptyAsset gen m pth ty prnt)) =
     (case map_of (registry m) pth of Some stored \<Rightarrow> minted m | None \<Rightarrow> minted m + 1)"
  by (simp add: createEmptyAsset_def Let_def contains_def split: option.splits)

subsection \<open>Re-import\<close>

text \<open>
  C6. For a path that is in the registry and whose handle has a live asset,
  \<open>importAsset\<close> leaves the registry as it was and stores, under the handle the registry
  holds for the path, the object that \<open>createEmptyAsset\<close> has just allocated; the store
  keeps its keys, and the objects under the other handles stay.
\<close>

theorem importAsset_reimport:
  fixes gen gt prnt
  assumes "map_of (registry m) pth = Some stored"
    and "map_of (assets m) (handle stored) = Some old"
  defines "created \<equiv> fst (createEmptyAsset gen m pth (gt pth) prnt)"
  shows "registry (importAsset gen gt m pth prnt) = registry m
       \<and> handle (metadata created) = handle stored
       \<and> objId created = allocated m
       \<and> map_of (assets (importAsset gen gt m pth prnt)) (handle stored) = Some created
       \<and> map fst (assets (importAsset gen gt m pth prnt)) = map fst (assets m)
       \<and> (\<forall>h. h \<noteq> handle stored \<longrightarrow>
             map_of (assets (importAsset gen gt m pth prnt)) h = map_of (assets m) h)"
proof -
  obtain a m1 where c: "createEmptyAsset gen m pth (gt pth) prnt = (a, m1)"
    by (cases "createEmptyAsset gen m pth (gt pth) prnt")
  have a: "created = a" using c by (simp add: created_def)
  have m1: "registry m1 = registry m" "assets m1 = assets m"
    using createEmptyAsset_frame [of gen m pth "gt pth" prnt] c by simp_all
  have pa: "path (metadata a) = pth" and ha: "handle (metadata a) = handle stored"
    and oa: "objId a = allocated m"
    using createEmptyAsset_fields [of gen m pth "gt pth" prnt]
      createEmptyAsset_handle [of gen m pth "gt pth" prnt] c assms(1) by simp_all
  have reg: "registerIfNeeded a m1 = m1"
    using assms(1) by (simp add: registerIfNeeded_def contains_def pa m1)
  have imp: "importAsset gen gt m pth prnt = storeAsset a m1"
    by (simp add: importAsset_def Let_def c reg)
  show ?thesis
    using assms(2)
    by (simp add: a imp storeAsset_def m1 ha oa map_of_assign keys_assign_present)
qed

theorem importAsset_reimport_witness:
  "registry (importAsset example_gen (\<lambda>p. Model) example_live ''/p/a.model'' 5) = registry example_live
   \<and> map_of (assets (importAsset example_gen (\<lambda>p. Model) example_live ''/p/a.model'' 5)) 1
       = Some (fst (createEmptyAsset example_gen example_live ''/p/a.model'' Model 5))
   \<and> map_of (assets example_live) 1 \<noteq> Some (fst (createEmptyAsset example_gen example_live ''/p/a.model'' Model 5))"
proof -
  have r: "map_of (registry example_live) ''/p/a.model''
             = Some \<lparr>handle = 1, path = ''/p/a.model'', type = Model\<rparr>"
    by (simp add: example_live_def importAsset_def createEmptyAsset_def newAssetManager_def
      registerIfNeeded_def storeAsset_def emplace_def contains_def example_gen_def Let_def)
  have a: "map_of (assets example_live) 1 = Some (fst (createEmptyAsset example_gen (newAssetManager ''/p'') ''/p/a.model'' Model 9))"
    by (simp add: example_live_def importAsset_def createEmptyAsset_def newAssetManager_def
      registerIfNeeded_def storeAsset_def emplace_def contains_def example_gen_def Let_def)
  have d: "fst (createEmptyAsset example_gen (newAssetManager ''/p'') ''/p/a.model'' Model 9)
        \<noteq> fst (createEmptyAsset example_gen example_live ''/p/a.model'' Model 5)"
    by (simp add: createEmptyAsset_def Let_def)
  show ?thesis
    using importAsset_reimport [of example_live "''/p/a.model''" _ _ example_gen "\<lambda>p. Model" 5, OF r] a d
    by simp
qed

subsection \<open>Induction over a scan\<close>

lemma updateDirectoryAssets_enter:
  "updateDirectoryAssets gen gt m pth es prnt =
     (case enterDirectory gen m pth prnt of
        Inl e \<Rightarrow> Inl e
      | Inr (h, k, m3) \<Rightarrow>
          (case scanEntries gen gt m3 es h k of Inl e \<Rightarrow> Inl e | Inr m4 \<Rightarrow> Inr (h, m4)))"
  by (simp add: enterDirectory_def Let_def split: prod.splits sum.splits)

lemma updateDirectoryAssets_InrD:
  assumes "updateDirectoryAssets gen gt m pth es prnt = Inr (h, m')"
  obtains k m3 where "enterDirectory gen m pth prnt = Inr (h, k, m3)"
    and "scanEntries gen gt m3 es h k = Inr m'"
  using assms unfolding updateDirectoryAssets_enter
  by (auto split: sum.splits)

lemma scan_induct [case_names Directory Nil File Dir]:
  assumes "\<And>m pth es prnt.
             (\<And>h k m3. enterDirectory gen m pth prnt = Inr (h, k, m3) \<Longrightarrow> Q m3 es h k)
             \<Longrightarrow> P m pth es prnt"
    and "\<And>m h k. Q m [] h k"
    and "\<And>m p es h k. (alive m h k \<Longrightarrow> Q (importAsset gen gt m p h) es h k)
             \<Longrightarrow> Q m (File p # es) h k"
    and "\<And>m p sub es h k.
             (alive m h k \<Longrightarrow> P m p sub h)
             \<Longrightarrow> (\<And>h' m'. alive m h k \<Longrightarrow> updateDirectoryAssets gen gt m p sub h = Inr (h', m')
                    \<Longrightarrow> Q m' es h k)
             \<Longrightarrow> Q m (Dir p sub # es) h k"
  shows "P m pth es prnt" and "Q m es0 h k"
proof -
  let ?P = "\<lambda>g t m pth es prnt. g = gen \<longrightarrow> t = gt \<longrightarrow> P m pth es prnt"
  let ?Q = "\<lambda>g t m es h k. g = gen \<longrightarrow> t = gt \<longrightarrow> Q m es h k"
  have step1: "?P g t m pth es prnt"
    if ih: "\<And>x xa y xb xc xd b.
          \<lbrakk>x = createEmptyAsset g m pth Directory prnt; (xa, y) = x;
           xb = xa\<lparr>runtimeData := runtimeData xa\<lparr>loaded := True\<rparr>\<rparr>;
           xc = handle (metadata xb);
           xd = storeAsset xb (registerIfNeeded xb y);
           (if isValid prnt then addChild prnt xc xd else Inr xd) = Inr b\<rbrakk>
          \<Longrightarrow> ?Q g t b es xc (objId xb)"
    for g t m pth es prnt
  proof (intro impI)
    assume g: "g = gen" and t: "t = gt"
    show "P m pth es prnt"
    proof (rule assms(1))
      fix h k m3
      assume e: "enterDirectory gen m pth prnt = Inr (h, k, m3)"
      obtain xa y where c: "createEmptyAsset gen m pth Directory prnt = (xa, y)"
        by (cases "createEmptyAsset gen m pth Directory prnt")
      from e c show "Q m3 es h k"
        using ih [OF refl c [symmetric, unfolded g [symmetric]] refl refl refl, of m3] g t
        by (auto simp: enterDirectory_def Let_def split: sum.splits)
    qed
  qed
  have step3: "?Q g t m (File p # es) h k"
    if "alive m h k \<Longrightarrow> ?Q g t (importAsset g t m p h) es h k" for g t m p es h k
    using that by (auto intro: assms(3))
  have step4: "?Q g t m (Dir p sub # es) h k"
    if "alive m h k \<Longrightarrow> ?P g t m p sub h"
      and "\<And>b x y. \<lbrakk>alive m h k; updateDirectoryAssets g t m p sub h = Inr b; (x, y) = b\<rbrakk>
             \<Longrightarrow> ?Q g t y es h k"
    for g t m p sub es h k
    using that by (auto intro!: assms(4))
  have "?P gen gt m pth es prnt" and "?Q gen gt m es0 h k"
    by (rule updateDirectoryAssets_scanEntries.induct [where P = ?P and Q = ?Q],
        erule step1, simp add: assms(2), erule step3, erule step4, assumption)+
  then show "P m pth es prnt" and "Q m es0 h k" by simp_all
qed


lemma scan_rel:
  assumes rfl: "\<And>m. R m m" and trans: "\<And>a b c. R a b \<Longrightarrow> R b c \<Longrightarrow> R a c"
    and enter: "\<And>m pth prnt h k m3. enterDirectory gen m pth prnt = Inr (h, k, m3) \<Longrightarrow> R m m3"
    and imp: "\<And>m p h. R m (importAsset gen gt m p h)"
  shows "updateDirectoryAssets gen gt m pth es prnt = Inr (h', m') \<Longrightarrow> R m m'"
    and "scanEntries gen gt m es0 h k = Inr m' \<Longrightarrow> R m m'"
proof -
  let ?P = "\<lambda>m pth es prnt. \<forall>h' m'. updateDirectoryAssets gen gt m pth es prnt = Inr (h', m') \<longrightarrow> R m m'"
  let ?Q = "\<lambda>m es h k. \<forall>m'. scanEntries gen gt m es h k = Inr m' \<longrightarrow> R m m'"
  have "?P m pth es prnt" and "?Q m es0 h k"
  proof (induction m pth es prnt and m es0 h k rule: scan_induct [where gen = gen and gt = gt])
    case (Directory m pth es prnt)
    show ?case
    proof (intro allI impI)
      fix h' m'
      assume "updateDirectoryAssets gen gt m pth es prnt = Inr (h', m')"
      then obtain k m3 where e: "enterDirectory gen m pth prnt = Inr (h', k, m3)"
        and s: "scanEntries gen gt m3 es h' k = Inr m'"
        by (rule updateDirectoryAssets_InrD)
      from Directory [OF e] s have "R m3 m'" by blast
      with enter [OF e] show "R m m'" by (rule trans)
    qed
  next
    case (Nil m h k)
    then show ?case by (auto simp: rfl split: if_splits)
  next
    case (File m p es h k)
    then show ?case by (auto split: if_splits intro: trans [OF imp])
  next
    case (Dir m p sub es h k)
    show ?case
    proof (intro allI impI)
      fix m'
      assume a: "scanEntries gen gt m (Dir p sub # es) h k = Inr m'"
      then have al: "alive m h k" by (auto split: if_splits)
      from a al obtain h1 m1 where u: "updateDirectoryAssets gen gt m p sub h = Inr (h1, m1)"
        and r: "scanEntries gen gt m1 es h k = Inr m'"
        by (auto split: sum.splits)
      from Dir(1) [OF al] u have "R m m1" by blast
      moreover from Dir(2) [OF al u] r have "R m1 m'" by blast
      ultimately show "R m m'" by (rule trans)
    qed
  qed
  then show "updateDirectoryAssets gen gt m pth es prnt = Inr (h', m') \<Longrightarrow> R m m'"
    and "scanEntries gen gt m es0 h k = Inr m' \<Longrightarrow> R m m'" by blast+
qed

subsection \<open>What importing and entering a directory change\<close>

lemma importAsset_unfold:
  "importAsset gen gt m p prnt =
     storeAsset (fst (createEmptyAsset gen m p (gt p) prnt))
       (registerIfNeeded (fst (createEmptyAsset gen m p (gt p) prnt))
          (snd (createEmptyAsset gen m p (gt p) prnt)))"
  by (simp add: importAsset_def Let_def split: prod.splits)

lemma storeAsset_frame:
  "registry (storeAsset a m) = registry m"
  "serializers (storeAsset a m) = serializers m"
  "sortedAssets (storeAsset a m) = sortedAssets m"
  "projectFolder (storeAsset a m) = projectFolder m"
  "minted (storeAsset a m) = minted m"
  "allocated (storeAsset a m) = allocated m"
  "assets (storeAsset a m) = assign (handle (metadata a)) a (assets m)"
  by (simp_all add: storeAsset_def)

lemma registerIfNeeded_frame:
  "assets (registerIfNeeded a m) = assets m"
  "serializers (registerIfNeeded a m) = serializers m"
  "sortedAssets (registerIfNeeded a m) = sortedAssets m"
  "projectFolder (registerIfNeeded a m) = projectFolder m"
  "minted (registerIfNeeded a m) = minted m"
  "allocated (registerIfNeeded a m) = allocated m"
  "registry (registerIfNeeded a m) =
     (if contains (registry m) (path (metadata a)) then registry m
      else registry m @ [(path (metadata a), metadata a)])"
  by (simp_all add: registerIfNeeded_def emplace_def)

lemma addChild_frame:
  assumes "addChild prnt h m = Inr m'"
  shows "registry m' = registry m" "serializers m' = serializers m"
    "sortedAssets m' = sortedAssets m" "projectFolder m' = projectFolder m"
    "minted m' = minted m" "allocated m' = allocated m"
  using assms by (auto simp: addChild_def split: option.splits)

lemma addChild_assets:
  assumes "addChild prnt h m = Inr m'"
  obtains p cs where "map_of (assets m) prnt = Some p" and "children p = Some cs"
    and "assets m' = assign prnt (p\<lparr>children := Some (cs @ [h])\<rparr>) (assets m)"
  using assms by (auto simp: addChild_def split: option.splits)

lemma importAsset_frame:
  "serializers (importAsset gen gt m p prnt) = serializers m"
  "sortedAssets (importAsset gen gt m p prnt) = sortedAssets m"
  "projectFolder (importAsset gen gt m p prnt) = projectFolder m"
  "allocated (importAsset gen gt m p prnt) = allocated m + 1"
  by (simp_all add: importAsset_unfold storeAsset_frame registerIfNeeded_frame
      createEmptyAsset_frame)

lemma importAsset_registry:
  "registry (importAsset gen gt m p prnt) =
     (if contains (registry m) p then registry m
      else registry m @ [(p, \<lparr>handle = gen (minted m), path = p, type = gt p\<rparr>)])"
  by (simp add: importAsset_unfold storeAsset_frame registerIfNeeded_frame
      createEmptyAsset_frame createEmptyAsset_fields)
     (simp add: createEmptyAsset_def Let_def contains_def split: option.splits)

lemma importAsset_minted:
  "minted (importAsset gen gt m p prnt) = (if contains (registry m) p then minted m else minted m + 1)"
  by (simp add: importAsset_unfold storeAsset_frame registerIfNeeded_frame
      createEmptyAsset_minted contains_def split: option.splits)

lemma importAsset_assets:
  "assets (importAsset gen gt m p prnt) =
     assign (handle (metadata (fst (createEmptyAsset gen m p (gt p) prnt))))
       (fst (createEmptyAsset gen m p (gt p) prnt)) (assets m)"
  by (simp add: importAsset_unfold storeAsset_frame registerIfNeeded_frame
      createEmptyAsset_frame)

lemma enterDirectory_unfold:
  "enterDirectory gen m pth prnt =
     (let d = newDirectory gen m pth prnt;
          m2 = storeAsset d (registerIfNeeded d (snd (createEmptyAsset gen m pth Directory prnt)))
      in case (if isValid prnt then addChild prnt (handle (metadata d)) m2 else Inr m2) of
           Inl e \<Rightarrow> Inl e
         | Inr m3 \<Rightarrow> Inr (handle (metadata d), objId d, m3))"
  by (cases "createEmptyAsset gen m pth Directory prnt")
     (simp add: enterDirectory_def newDirectory_def Let_def)

lemma newDirectory_fields:
  "path (metadata (newDirectory gen m pth prnt)) = pth"
  "type (metadata (newDirectory gen m pth prnt)) =
     (case map_of (registry m) pth of
        Some stored \<Rightarrow> if type stored \<noteq> Directory then NoneT else Directory
      | None \<Rightarrow> Directory)"
  "parent (runtimeData (newDirectory gen m pth prnt)) = prnt"
  "loaded (runtimeData (newDirectory gen m pth prnt)) = True"
  "objId (newDirectory gen m pth prnt) = allocated m"
  "children (newDirectory gen m pth prnt) = Some []"
  "handle (metadata (newDirectory gen m pth prnt)) =
     (case map_of (registry m) pth of Some stored \<Rightarrow> handle stored | None \<Rightarrow> gen (minted m))"
  by (simp_all add: newDirectory_def createEmptyAsset_def Let_def split: option.splits)

lemma enterDirectory_frame:
  assumes "enterDirectory gen m pth prnt = Inr (h, k, m3)"
  shows "serializers m3 = serializers m" "sortedAssets m3 = sortedAssets m"
    "projectFolder m3 = projectFolder m" "allocated m3 = allocated m + 1"
    "k = allocated m"
    "h = (case map_of (registry m) pth of Some stored \<Rightarrow> handle stored | None \<Rightarrow> gen (minted m))"
    "minted m3 = (if contains (registry m) pth then minted m else minted m + 1)"
    "registry m3 =
       (if contains (registry m) pth then registry m
        else registry m @ [(pth, \<lparr>handle = gen (minted m), path = pth, type = Directory\<rparr>)])"
proof -
  let ?d = "newDirectory gen m pth prnt"
  let ?m2 = "storeAsset ?d (registerIfNeeded ?d (snd (createEmptyAsset gen m pth Directory prnt)))"
  from assms have hk: "h = handle (metadata ?d)" "k = objId ?d"
    and m3: "m3 = ?m2 \<or> addChild prnt h ?m2 = Inr m3"
    by (auto simp: enterDirectory_unfold Let_def split: sum.splits if_splits)
  have md: "metadata ?d = \<lparr>handle = gen (minted m), path = pth, type = Directory\<rparr>"
    if "\<not> contains (registry m) pth"
    using that by (simp add: newDirectory_def createEmptyAsset_def Let_def contains_def)
  have m2: "serializers ?m2 = serializers m" "sortedAssets ?m2 = sortedAssets m"
    "projectFolder ?m2 = projectFolder m" "allocated ?m2 = allocated m + 1"
    "minted ?m2 = (if contains (registry m) pth then minted m else minted m + 1)"
    "registry ?m2 =
       (if contains (registry m) pth then registry m
        else registry m @ [(pth, \<lparr>handle = gen (minted m), path = pth, type = Directory\<rparr>)])"
    by (simp_all add: storeAsset_frame registerIfNeeded_frame createEmptyAsset_frame
        createEmptyAsset_minted newDirectory_fields md contains_def split: option.splits)
  from m3 m2 show "serializers m3 = serializers m" "sortedAssets m3 = sortedAssets m"
    "projectFolder m3 = projectFolder m" "allocated m3 = allocated m + 1"
    "minted m3 = (if contains (registry m) pth then minted m else minted m + 1)"
    "registry m3 =
       (if contains (registry m) pth then registry m
        else registry m @ [(pth, \<lparr>handle = gen (minted m), path = pth, type = Directory\<rparr>)])"
    by (auto dest: addChild_frame)
  from hk show "k = allocated m"
    "h = (case map_of (registry m) pth of Some stored \<Rightarrow> handle stored | None \<Rightarrow> gen (minted m))"
    by (simp_all add: newDirectory_fields)
qed

lemma scan_frame:
  assumes "updateDirectoryAssets gen gt m pth es prnt = Inr (h, m')"
  shows "serializers m' = serializers m \<and> sortedAssets m' = sortedAssets m
       \<and> projectFolder m' = projectFolder m"
  by (rule scan_rel(1) [where R = "\<lambda>m m'. serializers m' = serializers m
        \<and> sortedAssets m' = sortedAssets m \<and> projectFolder m' = projectFolder m", OF _ _ _ _ assms])
     (auto simp: importAsset_frame dest: enterDirectory_frame)

subsection \<open>Loading: the serializer lookup\<close>

lemma newAssetManager_serializers:
  "serializers (newAssetManager folder) =
     [(Model, \<lparr>serialize = None, load = Some loadModelAsset\<rparr>),
      (Texture, \<lparr>serialize = None, load = Some loadTextureAsset\<rparr>)]"
  by (simp add: newAssetManager_def emplace_def contains_def)

lemma updateAssetRegistry_frame:
  "serializers (updateAssetRegistry m) = serializers m"
  "assets (updateAssetRegistry m) = assets m"
  "projectFolder (updateAssetRegistry m) = projectFolder m"
  by (simp_all add: updateAssetRegistry_def)

lemma createAssetManager_serializers:
  assumes "createAssetManager gen gt folder es = Inr m"
  shows "serializers m = serializers (newAssetManager folder)"
proof -
  from assms obtain h m1 where
    s: "updateDirectoryAssets gen gt (newAssetManager folder) folder es UUID_None = Inr (h, m1)"
    and m: "m = updateAssetRegistry m1"
    by (auto simp: createAssetManager_def split: sum.splits)
  from scan_frame [OF s] m show ?thesis by (simp add: updateAssetRegistry_frame)
qed

text \<open>
  C10. In a manager built by \<open>createAssetManager\<close> the serializer map has the keys Model
  and Texture and no other. There \<open>loadAssetData\<close> returns exactly for the assets of
  type Directory, Model or Texture; for an asset of type None the lookup throws
  \<^verbatim>\<open>std::out_of_range\<close>, as it does in any manager for every type that is not
  Directory and has no entry in the map.
\<close>

theorem loadAssetData_faults_without_serializer:
  fixes call
  assumes "createAssetManager gen gt folder es = Inr m"
  shows "fst ` set (serializers m) = {Model, Texture}
       \<and> ((\<exists>r. loadAssetData call m a = Inr r) \<longleftrightarrow> type (metadata a) \<in> {Directory, Model, Texture})
       \<and> (type (metadata a) = NoneT \<longrightarrow> loadAssetData call m a = Inl OutOfRange)
       \<and> (\<forall>m' :: AssetManager. type (metadata a) \<noteq> Directory
              \<and> type (metadata a) \<notin> fst ` set (serializers m')
            \<longrightarrow> loadAssetData call m' a = Inl OutOfRange)"
proof -
  have s: "serializers m =
     [(Model, \<lparr>serialize = None, load = Some loadModelAsset\<rparr>),
      (Texture, \<lparr>serialize = None, load = Some loadTextureAsset\<rparr>)]"
    using createAssetManager_serializers [OF assms] by (simp add: newAssetManager_serializers)
  have 1: "fst ` set (serializers m) = {Model, Texture}" by (simp add: s)
  have 2: "(\<exists>r. loadAssetData call m a = Inr r) \<longleftrightarrow> type (metadata a) \<in> {Directory, Model, Texture}"
    by (cases "type (metadata a)") (auto simp: loadAssetData_def s split: prod.splits)
  have 3: "type (metadata a) = NoneT \<longrightarrow> loadAssetData call m a = Inl OutOfRange"
    by (simp add: loadAssetData_def s)
  have 4: "loadAssetData call m' a = Inl OutOfRange"
    if "type (metadata a) \<noteq> Directory" "type (metadata a) \<notin> fst ` set (serializers m')" for m'
  proof -
    from that(2) have "map_of (serializers m') (type (metadata a)) = None"
      by (simp add: map_of_eq_None_iff)
    with that(1) show ?thesis by (simp add: loadAssetData_def)
  qed
  from 1 2 3 4 show ?thesis by blast
qed

theorem loadAssetData_faults_without_serializer_witness:
  "\<not> isl (createAssetManager example_gen (\<lambda>p. Model) ''/root'' [File ''/root/a.fbx''])
   \<and> loadAssetData (\<lambda>f m a. (True, m, a))
        (projr (createAssetManager example_gen (\<lambda>p. Model) ''/root'' [File ''/root/a.fbx'']))
        (fst (createEmptyAsset example_gen example_registered ''/p/a.model'' Texture 3))
      = Inl OutOfRange"
proof -
  let ?built = "createAssetManager example_gen (\<lambda>p. Model) ''/root'' [File ''/root/a.fbx'']"
  let ?a = "fst (createEmptyAsset example_gen example_registered ''/p/a.model'' Texture 3)"
  have n: "\<not> isl ?built"
    by code_simp
  then have c: "?built = Inr (projr ?built)"
    by simp
  have t: "type (metadata ?a) = NoneT"
    by (simp add: createEmptyAsset_def example_registered_def Let_def)
  from loadAssetData_faults_without_serializer [OF c, of "\<lambda>f m a. (True, m, a)" ?a] t
  have "loadAssetData (\<lambda>f m a. (True, m, a)) (projr ?built) ?a = Inl OutOfRange"
    by blast
  with n show ?thesis by blast
qed

subsection \<open>Loading: the three ways out\<close>

lemma loadAssetData_Directory:
  "type (metadata a) = Directory \<Longrightarrow> loadAssetData call m a = Inr (False, m, a)"
  by (simp add: loadAssetData_def)

lemma loadAssetData_bound:
  assumes "type (metadata a) \<noteq> Directory"
    and "map_of (serializers m) (type (metadata a)) = Some s" and "load s = Some f"
    and "call f m a = (ok, m', a')"
  shows "loadAssetData call m a = Inr (ok, m', a'\<lparr>runtimeData := (runtimeData a')\<lparr>loaded := ok\<rparr>\<rparr>)"
  using assms by (simp add: loadAssetData_def)

lemma loadAssetData_null_loader:
  assumes "type (metadata a) \<noteq> Directory"
    and "map_of (serializers m) (type (metadata a)) = Some s" and "load s = None"
  shows "loadAssetData call m a = Inl MissingReturn"
  using assms by (simp add: loadAssetData_def)

text \<open>
  C5. The first and the third part of the claim are the lemmas \<open>loadAssetData_Directory\<close>
  and \<open>loadAssetData_bound\<close>. The second part fails: for the asset of type None that the
  type-mismatch policy produces, no loader is bound in a new manager, and the call does
  not return false but throws \<^verbatim>\<open>std::out_of_range\<close>. (With an entry whose loader is null
  the function runs off its end without a return value, lemma
  \<open>loadAssetData_null_loader\<close>.)
\<close>

theorem loadAssetData_no_loader_not_false:
  "type (metadata example_mismatched) = NoneT
   \<and> map_of (serializers (newAssetManager ''/p'')) NoneT = None
   \<and> loadAssetData call (newAssetManager ''/p'') example_mismatched = Inl OutOfRange"
  by (simp add: example_mismatched_def createEmptyAsset_def example_registered_def Let_def
      loadAssetData_def newAssetManager_serializers)


subsection \<open>Embedded assets\<close>

lemma createEmbeddedAsset_unfold:
  "createEmbeddedAsset gen hb he m ty d parentPath internalPath =
     (case map_of (registry m) parentPath of
        None \<Rightarrow> Inl OutOfRange
      | Some stored \<Rightarrow>
          Inr (copyAssetMetadata
                 (fst (createEmptyAsset gen m (hb @ parentPath @ he @ internalPath) ty (handle stored))) d,
               snd (createEmptyAsset gen m (hb @ parentPath @ he @ internalPath) ty (handle stored))))"
  by (simp add: createEmbeddedAsset_def Let_def split: option.splits prod.splits)

text \<open>
  C7, as claimed, fails: for the scene file registered with handle 7, the call for its
  sub-mesh returns, and the registry is the one entry it was; the synthetic path has no
  entry.
\<close>

theorem createEmbeddedAsset_registers_nothing:
  "\<not> isl (createEmbeddedAsset example_gen ''<'' ''>'' example_scene Model example_data
            ''/p/scene.fbx'' ''submesh0'')
   \<and> registry (snd (projr (createEmbeddedAsset example_gen ''<'' ''>'' example_scene Model
                 example_data ''/p/scene.fbx'' ''submesh0'')))
       = [(''/p/scene.fbx'', \<lparr>handle = 7, path = ''/p/scene.fbx'', type = Model\<rparr>)]
   \<and> map_of (registry (snd (projr (createEmbeddedAsset example_gen ''<'' ''>'' example_scene Model
                 example_data ''/p/scene.fbx'' ''submesh0'')))) ''</p/scene.fbx>submesh0'' = None"
  by (simp add: createEmbeddedAsset_unfold createEmptyAsset_frame example_scene_def)

lemma distinct_handles_differ:
  assumes "distinct (map (\<lambda>e. handle (snd e)) reg)"
    and "map_of reg p = Some a" and "map_of reg q = Some b" and "p \<noteq> q"
  shows "handle a \<noteq> handle b"
proof -
  from assms(2,3) have "(p, a) \<in> set reg" "(q, b) \<in> set reg"
    by (auto dest: map_of_SomeD)
  moreover from assms(1) have "inj_on (\<lambda>e. handle (snd e)) (set reg)"
    by (simp add: distinct_map)
  ultimately have "handle (snd (p, a)) = handle (snd (q, b)) \<Longrightarrow> (p, a) = (q, b)"
    by (rule inj_onD [rotated 2])
  with assms(4) show ?thesis by auto
qed

text \<open>
  C7, amended. For a parent path registered with handle H, \<open>createEmbeddedAsset\<close> returns
  and sets the data asset's path to the synthetic path and its parent to H; the handle
  is the one the registry stores for the synthetic path, or a newly generated one when
  that path is not registered, and it differs from H when the registry's handles are
  pairwise distinct, the generated handle is not in the registry and the synthetic path
  is not the parent path. The registry and the store are left unchanged: no entry is
  added for the synthetic path.
\<close>

theorem createEmbeddedAsset_metadata:
  fixes gen hostBegin hostEnd ty dataAsset parentPath internalPath
  defines "embeddedPath \<equiv> hostBegin @ parentPath @ hostEnd @ internalPath"
  assumes reg: "map_of (registry m) parentPath = Some stored"
  shows "\<exists>d m'. createEmbeddedAsset gen hostBegin hostEnd m ty dataAsset parentPath internalPath
                  = Inr (d, m')
           \<and> path (metadata d) = embeddedPath
           \<and> parent (runtimeData d) = handle stored
           \<and> handle (metadata d) =
               (case map_of (registry m) embeddedPath of
                  Some e \<Rightarrow> handle e
                | None \<Rightarrow> gen (minted m))
           \<and> (distinct (map (\<lambda>e. handle (snd e)) (registry m))
                \<and> gen (minted m) \<notin> (\<lambda>e. handle (snd e)) ` set (registry m)
                \<and> embeddedPath \<noteq> parentPath
              \<longrightarrow> handle (metadata d) \<noteq> handle stored)
           \<and> registry m' = registry m
           \<and> assets m' = assets m"
proof -
  let ?c = "createEmptyAsset gen m embeddedPath ty (handle stored)"
  let ?d = "copyAssetMetadata (fst ?c) dataAsset"
  have r: "createEmbeddedAsset gen hostBegin hostEnd m ty dataAsset parentPath internalPath
             = Inr (?d, snd ?c)"
    using reg by (simp add: createEmbeddedAsset_unfold embeddedPath_def)
  have p: "path (metadata ?d) = embeddedPath" "parent (runtimeData ?d) = handle stored"
    by (simp_all add: copyAssetMetadata_def createEmptyAsset_fields)
  have h: "handle (metadata ?d) =
             (case map_of (registry m) embeddedPath of Some e \<Rightarrow> handle e | None \<Rightarrow> gen (minted m))"
    by (simp add: copyAssetMetadata_def createEmptyAsset_handle)
  have u: "handle (metadata ?d) \<noteq> handle stored"
    if d: "distinct (map (\<lambda>e. handle (snd e)) (registry m))"
      and f: "gen (minted m) \<notin> (\<lambda>e. handle (snd e)) ` set (registry m)"
      and n: "embeddedPath \<noteq> parentPath"
  proof (cases "map_of (registry m) embeddedPath")
    case None
    from reg have "(parentPath, stored) \<in> set (registry m)" by (rule map_of_SomeD)
    then have "handle stored \<in> (\<lambda>e. handle (snd e)) ` set (registry m)" by force
    moreover from None have "handle (metadata ?d) = gen (minted m)" by (simp add: h)
    ultimately show ?thesis using f by metis
  next
    case (Some e)
    from distinct_handles_differ [OF d Some reg n] Some show ?thesis by (simp add: h)
  qed
  have f: "registry (snd ?c) = registry m" "assets (snd ?c) = assets m"
    by (simp_all add: createEmptyAsset_frame)
  from r p h u f show ?thesis by blast
qed

theorem createEmbeddedAsset_metadata_witness:
  "path (metadata (fst (projr (createEmbeddedAsset example_gen ''<'' ''>'' example_scene Model
                  example_data ''/p/scene.fbx'' ''submesh0'')))) = ''</p/scene.fbx>submesh0''
   \<and> parent (runtimeData (fst (projr (createEmbeddedAsset example_gen ''<'' ''>'' example_scene Model
                  example_data ''/p/scene.fbx'' ''submesh0'')))) = 7
   \<and> handle (metadata (fst (projr (createEmbeddedAsset example_gen ''<'' ''>'' example_scene Model
                  example_data ''/p/scene.fbx'' ''submesh0'')))) = 1"
proof -
  have r: "map_of (registry example_scene) ''/p/scene.fbx''
             = Some \<lparr>handle = 7, path = ''/p/scene.fbx'', type = Model\<rparr>"
    by (simp add: example_scene_def)
  have m: "minted example_scene = 0"
    by (simp add: example_scene_def newAssetManager_def)
  have n: "map_of (registry example_scene) ''</p/scene.fbx>submesh0'' = None"
    by (simp add: example_scene_def)
  from createEmbeddedAsset_metadata [OF r, where gen = example_gen and hostBegin = "''<''"
      and hostEnd = "''>''" and internalPath = "''submesh0''" and ty = Model
      and dataAsset = example_data]
  show ?thesis
    by (auto simp: m n example_gen_def)
qed

subsection \<open>The sorted view\<close>

lemma sort_insert_mset: "mset (sort_insert lt x xs) = add_mset x (mset xs)"
  by (induction xs) auto

lemma std_sort_mset: "mset (std_sort lt xs) = mset xs"
  by (induction xs) (auto simp: sort_insert_mset)

lemma sort_insert_set: "set (sort_insert lt x xs) = insert x (set xs)"
  using sort_insert_mset [of lt x xs] by (metis set_mset_add_mset_insert set_mset_mset)

lemma sort_insert_ordered:
  assumes asym: "\<And>a b. lt a b \<Longrightarrow> \<not> lt b a"
    and trans: "\<And>a b c. \<not> lt b a \<Longrightarrow> \<not> lt c b \<Longrightarrow> \<not> lt c a"
    and "sorted_wrt (\<lambda>a b. \<not> lt b a) xs"
  shows "sorted_wrt (\<lambda>a b. \<not> lt b a) (sort_insert lt x xs)"
  using assms(3)
proof (induction xs)
  case Nil
  then show ?case by simp
next
  case (Cons y ys)
  show ?case
  proof (cases "lt x y")
    case True
    then have xy: "\<not> lt y x" by (rule asym)
    have "\<not> lt z x" if "z \<in> set ys" for z
    proof -
      from Cons.prems that have "\<not> lt z y" by simp
      with xy show ?thesis by (rule trans)
    qed
    with True xy Cons.prems show ?thesis by simp
  next
    case False
    with Cons show ?thesis by (auto simp: sort_insert_set)
  qed
qed

lemma std_sort_ordered:
  assumes "\<And>a b. lt a b \<Longrightarrow> \<not> lt b a"
    and "\<And>a b c. \<not> lt b a \<Longrightarrow> \<not> lt c b \<Longrightarrow> \<not> lt c a"
  shows "sorted_wrt (\<lambda>a b. \<not> lt b a) (std_sort lt xs)"
proof (induction xs)
  case Nil
  show ?case by simp
next
  case (Cons x xs)
  have "sorted_wrt (\<lambda>a b. \<not> lt b a) (sort_insert lt x (std_sort lt xs))"
    using assms(1) assms(2) Cons.IH by (rule sort_insert_ordered)
  then show ?case by simp
qed

lemma AssetType_ordinal_inj: "AssetType_ordinal s = AssetType_ordinal t \<longleftrightarrow> s = t"
  by (cases s; cases t) simp_all

lemma lex_not_less:
  fixes oa ob :: nat and la lb :: "'a :: linorder"
  shows "\<not> (ob < oa \<or> ob = oa \<and> lb < la) \<longleftrightarrow> oa < ob \<or> oa = ob \<and> la \<le> lb"
  by (cases oa ob rule: linorder_cases) (simp_all add: not_less)

lemma not_SortAssets_iff:
  "\<not> SortAssets b a \<longleftrightarrow>
     AssetType_ordinal (type (metadata (snd a))) < AssetType_ordinal (type (metadata (snd b)))
     \<or> AssetType_ordinal (type (metadata (snd a))) = AssetType_ordinal (type (metadata (snd b)))
        \<and> map tolower (filename (runtimeData (snd a))) \<le> map tolower (filename (runtimeData (snd b)))"
  unfolding SortAssets_def Let_def AssetType_ordinal_inj [symmetric] by (rule lex_not_less)

lemma lex_asym:
  fixes oa ob :: nat and la lb :: "'a :: linorder"
  shows "oa < ob \<or> oa = ob \<and> la < lb \<Longrightarrow> \<not> (ob < oa \<or> ob = oa \<and> lb < la)"
  by (cases oa ob rule: linorder_cases) simp_all

lemma SortAssets_asym: "SortAssets a b \<Longrightarrow> \<not> SortAssets b a"
  unfolding SortAssets_def Let_def AssetType_ordinal_inj [symmetric] by (rule lex_asym)

lemma lex_le_trans:
  fixes oa ob oc :: nat and la lb lc :: "'a :: linorder"
  assumes "oa < ob \<or> oa = ob \<and> la \<le> lb" and "ob < oc \<or> ob = oc \<and> lb \<le> lc"
  shows "oa < oc \<or> oa = oc \<and> la \<le> lc"
proof (cases "oa = ob \<and> ob = oc")
  case True
  with assms have "la \<le> lb" "lb \<le> lc" by simp_all
  then have "la \<le> lc" by (rule order_trans)
  with True show ?thesis by simp
next
  case False
  with assms have "oa < oc" by linarith
  then show ?thesis by simp
qed

lemma SortAssets_negtrans: "\<not> SortAssets b a \<Longrightarrow> \<not> SortAssets c b \<Longrightarrow> \<not> SortAssets c a"
  unfolding not_SortAssets_iff by (rule lex_le_trans)

lemma tolower_letters:
  "list_all (\<lambda>p. tolower (fst p) = snd p)
     (zip ''ABCDEFGHIJKLMNOPQRSTUVWXYZ'' ''abcdefghijklmnopqrstuvwxyz'')"
  by code_simp

lemma letters_of_codes:
  "list_all (\<lambda>n. char_of n \<in> set ''ABCDEFGHIJKLMNOPQRSTUVWXYZ'') [65 ..< 91 :: nat]"
  by code_simp

lemma tolower_table:
  "tolower c =
     (case map_of (zip ''ABCDEFGHIJKLMNOPQRSTUVWXYZ'' ''abcdefghijklmnopqrstuvwxyz'') c of
        Some l \<Rightarrow> l
      | None \<Rightarrow> c)"
proof (cases "map_of (zip ''ABCDEFGHIJKLMNOPQRSTUVWXYZ'' ''abcdefghijklmnopqrstuvwxyz'') c")
  case (Some l)
  then have "(c, l) \<in> set (zip ''ABCDEFGHIJKLMNOPQRSTUVWXYZ'' ''abcdefghijklmnopqrstuvwxyz'')"
    by (rule map_of_SomeD)
  with tolower_letters have "tolower (fst (c, l)) = snd (c, l)"
    unfolding list_all_iff by (rule bspec)
  then have "tolower c = l" by simp
  with Some show ?thesis by (simp only: option.case)
next
  case None
  have out: "\<not> (CHR ''A'' \<le> c \<and> c \<le> CHR ''Z'')"
  proof
    assume "CHR ''A'' \<le> c \<and> c \<le> CHR ''Z''"
    then have "65 \<le> (of_char c :: nat)" "(of_char c :: nat) < 91"
      by (simp_all add: less_eq_char_def)
    then have "(of_char c :: nat) \<in> set [65 ..< 91]"
      by (simp only: set_upt atLeastLessThan_iff)
    with letters_of_codes have "char_of (of_char c :: nat) \<in> set ''ABCDEFGHIJKLMNOPQRSTUVWXYZ''"
      unfolding list_all_iff by blast
    then have "c \<in> set ''ABCDEFGHIJKLMNOPQRSTUVWXYZ''" by simp
    then have "c \<in> fst ` set (zip ''ABCDEFGHIJKLMNOPQRSTUVWXYZ'' ''abcdefghijklmnopqrstuvwxyz'')"
      by (simp only: set_map [symmetric] map_fst_zip length_Cons list.size)
    with None show False by (simp only: map_of_eq_None_iff) simp
  qed
  have "tolower c = c"
    unfolding tolower_def using out by (simp only: if_False)
  with None show ?thesis by (simp only: option.case)
qed


lemma sortedAssets_ordered:
  "sorted_wrt
     (\<lambda>a b. AssetType_ordinal (type (metadata (snd a))) < AssetType_ordinal (type (metadata (snd b)))
        \<or> AssetType_ordinal (type (metadata (snd a))) = AssetType_ordinal (type (metadata (snd b)))
           \<and> map tolower (filename (runtimeData (snd a)))
                \<le> map tolower (filename (runtimeData (snd b))))
     (sortedAssets (updateAssetRegistry m))"
proof -
  have s: "sortedAssets (updateAssetRegistry m) = std_sort SortAssets (assets m)"
    by (simp add: updateAssetRegistry_def)
  have "sorted_wrt (\<lambda>a b. \<not> SortAssets b a) (std_sort SortAssets (assets m))"
    by (rule std_sort_ordered) (erule SortAssets_asym, erule (1) SortAssets_negtrans)
  then show ?thesis
    unfolding s not_SortAssets_iff .
qed

text \<open>
  C8. After \<open>updateAssetRegistry\<close> the sorted view holds the entries of the live store,
  each as often as the store holds it, and the store is as before; of two entries of the
  view, the earlier one has the smaller type ordinal, or the same ordinal and a file
  name that is not greater once the letters A to Z are replaced by a to z (every other
  character kept), in the lexicographic order of the character codes.
\<close>

theorem updateAssetRegistry_sortedAssets:
  fixes m
  defines "lower \<equiv>
     map (\<lambda>c. case map_of (zip ''ABCDEFGHIJKLMNOPQRSTUVWXYZ'' ''abcdefghijklmnopqrstuvwxyz'') c of
                Some l \<Rightarrow> l
              | None \<Rightarrow> c)"
  shows "mset (sortedAssets (updateAssetRegistry m)) = mset (assets m)
   \<and> assets (updateAssetRegistry m) = assets m
   \<and> sorted_wrt
        (\<lambda>a b. AssetType_ordinal (type (metadata (snd a))) < AssetType_ordinal (type (metadata (snd b)))
           \<or> AssetType_ordinal (type (metadata (snd a))) = AssetType_ordinal (type (metadata (snd b)))
              \<and> lower (filename (runtimeData (snd a))) \<le> lower (filename (runtimeData (snd b))))
        (sortedAssets (updateAssetRegistry m))"
proof -
  have fold: "lower = map tolower"
    unfolding lower_def by (rule arg_cong [where f = map]) (rule ext, rule tolower_table [symmetric])
  have "mset (sortedAssets (updateAssetRegistry m)) = mset (assets m)"
    unfolding updateAssetRegistry_def by (simp add: std_sort_mset)
  moreover have "assets (updateAssetRegistry m) = assets m"
    by (rule updateAssetRegistry_frame)
  moreover note sortedAssets_ordered [of m, folded fold]
  ultimately show ?thesis by blast
qed

theorem updateAssetRegistry_sortedAssets_witness:
  "\<not> isl example_mixed
   \<and> map (\<lambda>e. filename (runtimeData (snd e))) (assets (snd (projr example_mixed)))
       = [''p'', ''B.txt'', ''a.txt'', ''C.txt'']
   \<and> map (\<lambda>e. filename (runtimeData (snd e)))
         (sortedAssets (updateAssetRegistry (snd (projr example_mixed))))
       = [''p'', ''a.txt'', ''B.txt'', ''C.txt'']
   \<and> mset (sortedAssets (updateAssetRegistry (snd (projr example_mixed))))
       = mset (assets (snd (projr example_mixed)))
   \<and> sorted_wrt
        (\<lambda>a b. AssetType_ordinal (type (metadata (snd a))) < AssetType_ordinal (type (metadata (snd b)))
           \<or> AssetType_ordinal (type (metadata (snd a))) = AssetType_ordinal (type (metadata (snd b)))
              \<and> map (\<lambda>c. case map_of (zip ''ABCDEFGHIJKLMNOPQRSTUVWXYZ''
                                         ''abcdefghijklmnopqrstuvwxyz'') c of
                            Some l \<Rightarrow> l | None \<Rightarrow> c) (filename (runtimeData (snd a)))
                 \<le> map (\<lambda>c. case map_of (zip ''ABCDEFGHIJKLMNOPQRSTUVWXYZ''
                                         ''abcdefghijklmnopqrstuvwxyz'') c of
                            Some l \<Rightarrow> l | None \<Rightarrow> c) (filename (runtimeData (snd b))))
        (sortedAssets (updateAssetRegistry (snd (projr example_mixed))))"
proof -
  have 1: "\<not> isl example_mixed" by code_simp
  have 2: "map (\<lambda>e. filename (runtimeData (snd e))) (assets (snd (projr example_mixed)))
       = [''p'', ''B.txt'', ''a.txt'', ''C.txt'']"
    by code_simp
  have 3: "map (\<lambda>e. filename (runtimeData (snd e)))
         (sortedAssets (updateAssetRegistry (snd (projr example_mixed))))
       = [''p'', ''a.txt'', ''B.txt'', ''C.txt'']"
    by code_simp
  from updateAssetRegistry_sortedAssets [of "snd (projr example_mixed)"] 1 2 3
  show ?thesis by blast
qed

lemma tolower_ascii:
  "tolower CHR ''A'' = CHR ''a''" "tolower CHR ''Z'' = CHR ''z''" "tolower CHR ''q'' = CHR ''q''"
  "tolower CHR ''.'' = CHR ''.''"
  by code_simp+

subsection \<open>Compaction\<close>

lemma keys_assign: "fst ` set (assign k v al) = insert k (fst ` set al)"
  by (induction al) auto

lemma contains_keys: "contains al k \<longleftrightarrow> k \<in> fst ` set al"
  by (simp add: contains_def map_of_eq_None_iff)

lemma enterDirectory_keys:
  assumes "enterDirectory gen m pth prnt = Inr (h, k, m3)"
  shows "fst ` set (assets m3) = insert h (fst ` set (assets m))"
proof -
  let ?d = "newDirectory gen m pth prnt"
  let ?m2 = "storeAsset ?d (registerIfNeeded ?d (snd (createEmptyAsset gen m pth Directory prnt)))"
  from assms have h: "h = handle (metadata ?d)"
    and m3: "m3 = ?m2 \<or> addChild prnt h ?m2 = Inr m3"
    by (auto simp: enterDirectory_unfold Let_def split: sum.splits if_splits)
  have k2: "fst ` set (assets ?m2) = insert h (fst ` set (assets m))"
    by (simp add: storeAsset_frame registerIfNeeded_frame createEmptyAsset_frame keys_assign h)
  from m3 show ?thesis
  proof
    assume "m3 = ?m2"
    with k2 show ?thesis by simp
  next
    assume "addChild prnt h ?m2 = Inr m3"
    then obtain p cs where p: "map_of (assets ?m2) prnt = Some p"
      and a: "assets m3 = assign prnt (p\<lparr>children := Some (cs @ [h])\<rparr>) (assets ?m2)"
      by (rule addChild_assets)
    from p have "prnt \<in> fst ` set (assets ?m2)"
      by (metis contains_def contains_keys option.distinct(1))
    with a k2 show ?thesis by (auto simp: keys_assign)
  qed
qed

lemma enterDirectory_registered:
  assumes "enterDirectory gen m pth prnt = Inr (h, k, m3)"
  shows "set (registry m) \<subseteq> set (registry m3)"
    and "\<exists>md. map_of (registry m3) pth = Some md \<and> handle md = h"
proof -
  note f = enterDirectory_frame [OF assms]
  show "set (registry m) \<subseteq> set (registry m3)"
    by (auto simp: f(8))
  show "\<exists>md. map_of (registry m3) pth = Some md \<and> handle md = h"
  proof (cases "map_of (registry m) pth")
    case None
    then show ?thesis by (simp add: f(6) f(8) contains_def map_add_Some_iff)
  next
    case (Some s)
    then show ?thesis by (simp add: f(6) f(8) contains_def)
  qed
qed

lemma importAsset_registered:
  "set (registry m) \<subseteq> set (registry (importAsset gen gt m p prnt))"
  "\<exists>md. map_of (registry (importAsset gen gt m p prnt)) p = Some md
        \<and> handle md = handle (metadata (fst (createEmptyAsset gen m p (gt p) prnt)))"
proof -
  show "set (registry m) \<subseteq> set (registry (importAsset gen gt m p prnt))"
    by (auto simp: importAsset_registry)
  show "\<exists>md. map_of (registry (importAsset gen gt m p prnt)) p = Some md
        \<and> handle md = handle (metadata (fst (createEmptyAsset gen m p (gt p) prnt)))"
    by (cases "map_of (registry m) p")
       (simp_all add: importAsset_registry createEmptyAsset_handle contains_def map_add_Some_iff)
qed

lemma liveAssetsRegistered_grow:
  assumes "liveAssetsRegistered m" and "set (registry m) \<subseteq> set (registry m')"
    and "fst ` set (assets m') = insert h (fst ` set (assets m))"
    and "map_of (registry m') p = Some md" and "handle md = h"
  shows "liveAssetsRegistered m'"
proof -
  from assms(4) have "(p, md) \<in> set (registry m')" by (rule map_of_SomeD)
  with assms(5) have hr: "h \<in> (\<lambda>e. handle (snd e)) ` set (registry m')" by force
  show ?thesis
    unfolding liveAssetsRegistered_def
  proof
    fix x
    assume "x \<in> fst ` set (assets m')"
    then have "x = h \<or> x \<in> fst ` set (assets m)"
      by (simp add: assms(3))
    then show "x \<in> (\<lambda>e. handle (snd e)) ` set (registry m')"
    proof
      assume "x = h"
      with hr show ?thesis by simp
    next
      assume "x \<in> fst ` set (assets m)"
      with assms(1) have "x \<in> (\<lambda>e. handle (snd e)) ` set (registry m)"
        unfolding liveAssetsRegistered_def by (rule bspec)
      with assms(2) show ?thesis by blast
    qed
  qed
qed

lemma liveAssetsRegistered_importAsset:
  assumes "liveAssetsRegistered m"
  shows "liveAssetsRegistered (importAsset gen gt m p prnt)"
proof -
  from importAsset_registered(2) [of gen gt m p prnt] obtain md where
    md: "map_of (registry (importAsset gen gt m p prnt)) p = Some md"
      "handle md = handle (metadata (fst (createEmptyAsset gen m p (gt p) prnt)))"
    by blast
  show ?thesis
    using assms importAsset_registered(1) _ md
    by (rule liveAssetsRegistered_grow) (simp add: importAsset_assets keys_assign)
qed

lemma liveAssetsRegistered_enterDirectory:
  assumes "liveAssetsRegistered m" and "enterDirectory gen m pth prnt = Inr (h, k, m3)"
  shows "liveAssetsRegistered m3"
proof -
  from enterDirectory_registered(2) [OF assms(2)] obtain md where
    md: "map_of (registry m3) pth = Some md" "handle md = h"
    by blast
  show ?thesis
    using assms(1) enterDirectory_registered(1) [OF assms(2)] enterDirectory_keys [OF assms(2)] md
    by (rule liveAssetsRegistered_grow)
qed

lemma liveAssetsRegistered_scan:
  assumes "updateDirectoryAssets gen gt m pth es prnt = Inr (h, m')" and "liveAssetsRegistered m"
  shows "liveAssetsRegistered m'"
proof -
  have "liveAssetsRegistered m \<longrightarrow> liveAssetsRegistered m'"
    by (rule scan_rel(1) [where R = "\<lambda>m m'. liveAssetsRegistered m \<longrightarrow> liveAssetsRegistered m'",
          OF _ _ _ _ assms(1)])
       (auto intro: liveAssetsRegistered_importAsset liveAssetsRegistered_enterDirectory)
  with assms(2) show ?thesis by blast
qed

lemma liveAssetsRegistered_new: "liveAssetsRegistered (newAssetManager folder)"
  by (simp add: liveAssetsRegistered_def newAssetManager_def)

lemma updateAssetRegistry_registry:
  "set (registry (updateAssetRegistry m)) =
     {e \<in> set (registry m). contains (assets m) (handle (snd e))}"
  by (auto simp: updateAssetRegistry_def)

lemma liveAssetsRegistered_updateAssetRegistry:
  assumes "liveAssetsRegistered m"
  shows "liveAssetsRegistered (updateAssetRegistry m)"
  unfolding liveAssetsRegistered_def
proof
  fix x
  assume x: "x \<in> fst ` set (assets (updateAssetRegistry m))"
  then have k: "x \<in> fst ` set (assets m)" by (simp add: updateAssetRegistry_frame)
  with assms obtain e where e: "e \<in> set (registry m)" "handle (snd e) = x"
    unfolding liveAssetsRegistered_def by auto
  with k have "e \<in> set (registry (updateAssetRegistry m))"
    by (simp add: updateAssetRegistry_registry contains_keys)
  with e(2) show "x \<in> (\<lambda>e. handle (snd e)) ` set (registry (updateAssetRegistry m))"
    by blast
qed

lemma liveAssetsRegistered_createAssetManager:
  assumes "createAssetManager gen gt folder es = Inr m"
  shows "liveAssetsRegistered m"
proof -
  from assms obtain h m1 where
    s: "updateDirectoryAssets gen gt (newAssetManager folder) folder es UUID_None = Inr (h, m1)"
    and m: "m = updateAssetRegistry m1"
    by (auto simp: createAssetManager_def split: sum.splits)
  from s liveAssetsRegistered_new have "liveAssetsRegistered m1"
    by (rule liveAssetsRegistered_scan)
  then show ?thesis unfolding m by (rule liveAssetsRegistered_updateAssetRegistry)
qed

lemma compaction_sound:
  assumes "e \<in> set (registry (updateAssetRegistry m))"
  shows "contains (assets (updateAssetRegistry m)) (handle (snd e))"
  using assms by (simp add: updateAssetRegistry_registry updateAssetRegistry_frame)

lemma compaction_complete:
  assumes l: "liveAssetsRegistered m" and c: "contains (assets (updateAssetRegistry m)) h"
  shows "\<exists>e \<in> set (registry (updateAssetRegistry m)). handle (snd e) = h"
proof -
  from c have k: "h \<in> fst ` set (assets m)"
    by (simp add: updateAssetRegistry_frame contains_keys)
  with l obtain e where e: "e \<in> set (registry m)" "handle (snd e) = h"
    unfolding liveAssetsRegistered_def by auto
  with c have "e \<in> set (registry (updateAssetRegistry m))"
    by (simp add: updateAssetRegistry_registry updateAssetRegistry_frame)
  with e show ?thesis by blast
qed

lemma createAssetManager_compacted:
  assumes "createAssetManager gen gt folder es = Inr mc"
  obtains h m1 where
    "updateDirectoryAssets gen gt (newAssetManager folder) folder es UUID_None = Inr (h, m1)"
    and "mc = updateAssetRegistry m1"
  using assms by (auto simp: createAssetManager_def split: sum.splits)

text \<open>
  C2. \<open>updateAssetRegistry\<close> removes from the registry exactly the entries whose handle
  has no live asset and keeps every entry whose handle has one; the store is untouched.
  So after it every handle of the registry has a live asset. Conversely every live asset
  has a registry entry with its handle, in every manager in which that was so before
  the call: the function adds no entry. That condition, \<open>liveAssetsRegistered\<close>, holds in
  a new manager and is kept by \<open>importAsset\<close>, \<open>updateDirectoryAssets\<close> and
  \<open>updateAssetRegistry\<close>; so in a manager that \<open>createAssetManager\<close> returns, where the
  call is the last step, a handle is in the registry if and only if it has a live asset.
\<close>

theorem updateAssetRegistry_compaction:
  "set (registry (updateAssetRegistry m)) \<subseteq> set (registry m)
   \<and> (\<forall>e \<in> set (registry m).
         e \<in> set (registry (updateAssetRegistry m)) \<longleftrightarrow> contains (assets m) (handle (snd e)))
   \<and> assets (updateAssetRegistry m) = assets m
   \<and> (\<forall>h. (\<exists>e \<in> set (registry (updateAssetRegistry m)). handle (snd e) = h)
           \<longrightarrow> contains (assets (updateAssetRegistry m)) h)
   \<and> (liveAssetsRegistered m \<longrightarrow>
        (\<forall>h. (\<exists>e \<in> set (registry (updateAssetRegistry m)). handle (snd e) = h)
           \<longleftrightarrow> contains (assets (updateAssetRegistry m)) h))
   \<and> (createAssetManager gen gt folder es = Inr mc \<longrightarrow>
        (\<forall>h. (\<exists>e \<in> set (registry mc). handle (snd e) = h) \<longleftrightarrow> contains (assets mc) h))"
proof -
  have 1: "set (registry (updateAssetRegistry m)) \<subseteq> set (registry m)"
    by (auto simp: updateAssetRegistry_registry)
  have 2: "\<forall>e \<in> set (registry m).
         e \<in> set (registry (updateAssetRegistry m)) \<longleftrightarrow> contains (assets m) (handle (snd e))"
    by (simp add: updateAssetRegistry_registry)
  have 3: "assets (updateAssetRegistry m) = assets m"
    by (rule updateAssetRegistry_frame)
  have 4: "contains (assets (updateAssetRegistry m)) h"
    if "\<exists>e \<in> set (registry (updateAssetRegistry m)). handle (snd e) = h" for h
    using that by (auto dest: compaction_sound)
  have 5: "\<exists>e \<in> set (registry (updateAssetRegistry m)). handle (snd e) = h"
    if "liveAssetsRegistered m" and "contains (assets (updateAssetRegistry m)) h" for h
    using that by (rule compaction_complete)
  have 6: "(\<exists>e \<in> set (registry mc). handle (snd e) = h) \<longleftrightarrow> contains (assets mc) h"
    if c: "createAssetManager gen gt folder es = Inr mc" for h
  proof -
    from c obtain h1 m1 where
      s: "updateDirectoryAssets gen gt (newAssetManager folder) folder es UUID_None = Inr (h1, m1)"
      and mc: "mc = updateAssetRegistry m1"
      by (rule createAssetManager_compacted)
    from s liveAssetsRegistered_new have "liveAssetsRegistered m1"
      by (rule liveAssetsRegistered_scan)
    then show ?thesis
      unfolding mc by (auto dest: compaction_sound compaction_complete)
  qed
  from 1 2 3 4 5 6 show ?thesis by blast
qed

lemma example_live_eval:
  "registry example_live = [(''/p/a.model'', \<lparr>handle = 1, path = ''/p/a.model'', type = Model\<rparr>)]"
  "map fst (assets example_live) = [1]"
  by (simp_all add: example_live_def importAsset_registry importAsset_assets
      createEmptyAsset_handle newAssetManager_def contains_def example_gen_def)

theorem updateAssetRegistry_compaction_witness:
  "liveAssetsRegistered example_stale
   \<and> contains (assets (updateAssetRegistry example_stale)) 1
   \<and> (\<exists>e \<in> set (registry (updateAssetRegistry example_stale)). handle (snd e) = 1)
   \<and> \<not> contains (assets (updateAssetRegistry example_stale)) 99
   \<and> \<not> (\<exists>e \<in> set (registry (updateAssetRegistry example_stale)). handle (snd e) = 99)
   \<and> (''/p/gone.png'', \<lparr>handle = 99, path = ''/p/gone.png'', type = Texture\<rparr>)
        \<in> set (registry example_stale)
   \<and> \<not> isl example_built
   \<and> contains (assets (projr example_built)) 2
   \<and> (\<exists>e \<in> set (registry (projr example_built)). handle (snd e) = 2)"
proof -
  have k: "fst ` set (assets example_stale) = {1}"
    using example_live_eval(2) by (simp add: example_stale_def flip: set_map)
  have r: "registry example_stale =
      [(''/p/a.model'', \<lparr>handle = 1, path = ''/p/a.model'', type = Model\<rparr>),
       (''/p/gone.png'', \<lparr>handle = 99, path = ''/p/gone.png'', type = Texture\<rparr>)]"
    by (simp add: example_stale_def example_live_eval)
  have l: "liveAssetsRegistered example_stale"
    by (simp add: liveAssetsRegistered_def k r)
  have c: "contains (assets (updateAssetRegistry example_stale)) 1"
       "\<not> contains (assets (updateAssetRegistry example_stale)) 99"
    by (simp_all add: updateAssetRegistry_frame contains_keys k)
  have n: "\<not> isl example_built" by code_simp
  then have b: "createAssetManager example_gen (\<lambda>p. Model) ''/root'' example_entries
                  = Inr (projr example_built)"
    by (simp add: example_built_def)
  have v: "contains (assets (projr example_built)) 2" by code_simp
  note t = updateAssetRegistry_compaction [where m = example_stale and gen = example_gen
      and gt = "\<lambda>p. Model" and folder = "''/root''" and es = example_entries
      and mc = "projr example_built"]
  from t b v have "\<exists>e \<in> set (registry (projr example_built)). handle (snd e) = 2"
    by blast
  moreover from t l c r
  have "(\<exists>e \<in> set (registry (updateAssetRegistry example_stale)). handle (snd e) = 1)
      \<and> \<not> (\<exists>e \<in> set (registry (updateAssetRegistry example_stale)). handle (snd e) = 99)"
    by blast
  ultimately show ?thesis using l c r n v by simp
qed

subsection \<open>A scan registers every path and changes no entry\<close>

lemma registryGrows_refl: "registryGrows m m"
  by (simp add: registryGrows_def)

lemma registryGrows_trans: "registryGrows a b \<Longrightarrow> registryGrows b c \<Longrightarrow> registryGrows a c"
  by (simp add: registryGrows_def)

lemma registryGrows_contains: "registryGrows m m' \<Longrightarrow> contains (registry m) p \<Longrightarrow> contains (registry m') p"
  by (auto simp: registryGrows_def contains_def)

lemma registryGrows_importAsset: "registryGrows m (importAsset gen gt m p prnt)"
  by (auto simp: registryGrows_def importAsset_registry map_add_Some_iff)

lemma registryGrows_enterDirectory:
  "enterDirectory gen m pth prnt = Inr (h, k, m3) \<Longrightarrow> registryGrows m m3"
  by (auto simp: registryGrows_def map_add_Some_iff dest!: enterDirectory_frame(8))

lemma registryGrows_scan:
  "updateDirectoryAssets gen gt m pth es prnt = Inr (h', m') \<Longrightarrow> registryGrows m m'"
  "scanEntries gen gt m es0 h k = Inr m' \<Longrightarrow> registryGrows m m'"
  by (rule scan_rel [where R = registryGrows and gen = gen and gt = gt,
        OF registryGrows_refl registryGrows_trans registryGrows_enterDirectory
          registryGrows_importAsset];
      assumption)+

lemma scanEntries_Nil_Inr: "scanEntries gen gt m [] h k = Inr m' \<Longrightarrow> m' = m"
  by (simp split: if_splits)

lemma scanEntries_File_Inr:
  "scanEntries gen gt m (File p # es) h k = Inr m'
     \<Longrightarrow> alive m h k \<and> scanEntries gen gt (importAsset gen gt m p h) es h k = Inr m'"
  by (simp split: if_splits)

lemma scanEntries_Dir_Inr:
  assumes "scanEntries gen gt m (Dir p sub # es) h k = Inr m'"
  obtains h1 m1 where "alive m h k" and "updateDirectoryAssets gen gt m p sub h = Inr (h1, m1)"
    and "scanEntries gen gt m1 es h k = Inr m'"
  using assms by (auto split: if_splits sum.splits)

lemma importAsset_contains: "contains (registry (importAsset gen gt m p prnt)) p"
  using importAsset_registered(2) [of gen gt m p prnt] by (auto simp: contains_def)

lemma enterDirectory_contains:
  "enterDirectory gen m pth prnt = Inr (h, k, m3) \<Longrightarrow> contains (registry m3) pth"
  by (auto simp: contains_def dest: enterDirectory_registered(2))

lemma scan_registers:
  "updateDirectoryAssets gen gt m pth es prnt = Inr (h', m')
     \<Longrightarrow> \<forall>p \<in> set (entry_paths (Dir pth es)). contains (registry m') p"
  "scanEntries gen gt m es0 h k = Inr m'
     \<Longrightarrow> \<forall>p \<in> set (concat (map entry_paths es0)). contains (registry m') p"
proof -
  let ?P = "\<lambda>m pth es prnt. \<forall>h' m'. updateDirectoryAssets gen gt m pth es prnt = Inr (h', m')
              \<longrightarrow> (\<forall>p \<in> set (entry_paths (Dir pth es)). contains (registry m') p)"
  let ?Q = "\<lambda>m es h k. \<forall>m'. scanEntries gen gt m es h k = Inr m'
              \<longrightarrow> (\<forall>p \<in> set (concat (map entry_paths es)). contains (registry m') p)"
  have "?P m pth es prnt" and "?Q m es0 h k"
  proof (induction m pth es prnt and m es0 h k rule: scan_induct [where gen = gen and gt = gt])
    case (Directory m pth es prnt)
    show ?case
    proof (intro allI impI)
      fix h' m'
      assume "updateDirectoryAssets gen gt m pth es prnt = Inr (h', m')"
      then obtain k m3 where e: "enterDirectory gen m pth prnt = Inr (h', k, m3)"
        and s: "scanEntries gen gt m3 es h' k = Inr m'"
        by (rule updateDirectoryAssets_InrD)
      from e have "contains (registry m3) pth" by (rule enterDirectory_contains)
      with registryGrows_scan(2) [OF s] have "contains (registry m') pth"
        by (rule registryGrows_contains)
      moreover from Directory [OF e] s
      have "\<forall>p \<in> set (concat (map entry_paths es)). contains (registry m') p" by blast
      ultimately show "\<forall>p \<in> set (entry_paths (Dir pth es)). contains (registry m') p"
        by simp
    qed
  next
    case (Nil m h k)
    show ?case by simp
  next
    case (File m p es h k)
    show ?case
    proof (intro allI impI)
      fix m'
      assume "scanEntries gen gt m (File p # es) h k = Inr m'"
      then have "alive m h k \<and> scanEntries gen gt (importAsset gen gt m p h) es h k = Inr m'"
        by (rule scanEntries_File_Inr)
      then have al: "alive m h k"
        and s: "scanEntries gen gt (importAsset gen gt m p h) es h k = Inr m'"
        by simp_all
      from registryGrows_scan(2) [OF s] importAsset_contains have "contains (registry m') p"
        by (rule registryGrows_contains)
      moreover from File [OF al] s
      have "\<forall>p \<in> set (concat (map entry_paths es)). contains (registry m') p" by blast
      ultimately show "\<forall>q \<in> set (concat (map entry_paths (File p # es))). contains (registry m') q"
        by simp
    qed
  next
    case (Dir m p sub es h k)
    show ?case
    proof (intro allI impI)
      fix m'
      assume "scanEntries gen gt m (Dir p sub # es) h k = Inr m'"
      then obtain h1 m1 where al: "alive m h k"
        and u: "updateDirectoryAssets gen gt m p sub h = Inr (h1, m1)"
        and s: "scanEntries gen gt m1 es h k = Inr m'"
        by (rule scanEntries_Dir_Inr)
      from Dir(1) [OF al] u have "\<forall>q \<in> set (entry_paths (Dir p sub)). contains (registry m1) q"
        by blast
      with registryGrows_scan(2) [OF s]
      have "\<forall>q \<in> set (entry_paths (Dir p sub)). contains (registry m') q"
        by (blast intro: registryGrows_contains)
      moreover from Dir(2) [OF al u] s
      have "\<forall>q \<in> set (concat (map entry_paths es)). contains (registry m') q" by blast
      ultimately show "\<forall>q \<in> set (concat (map entry_paths (Dir p sub # es))). contains (registry m') q"
        by (simp del: entry_paths.simps) blast
    qed
  qed
  then show "updateDirectoryAssets gen gt m pth es prnt = Inr (h', m')
     \<Longrightarrow> \<forall>p \<in> set (entry_paths (Dir pth es)). contains (registry m') p"
    and "scanEntries gen gt m es0 h k = Inr m'
     \<Longrightarrow> \<forall>p \<in> set (concat (map entry_paths es0)). contains (registry m') p"
    by blast+
qed

subsection \<open>Scanning twice\<close>

lemma importAsset_registered_same:
  assumes "contains (registry m) p"
  shows "registry (importAsset gen gt m p prnt) = registry m"
    and "minted (importAsset gen gt m p prnt) = minted m"
  using assms by (simp_all add: importAsset_registry importAsset_minted)

lemma enterDirectory_registered_same:
  assumes "enterDirectory gen m pth prnt = Inr (h, k, m3)" and "contains (registry m) pth"
  shows "registry m3 = registry m" and "minted m3 = minted m"
  using enterDirectory_frame(7,8) [OF assms(1)] assms(2) by simp_all

lemma rescan_same:
  "updateDirectoryAssets gen gt m pth es prnt = Inr (h', m')
     \<Longrightarrow> \<forall>p \<in> set (entry_paths (Dir pth es)). contains (registry m) p
     \<Longrightarrow> registry m' = registry m \<and> minted m' = minted m"
  "scanEntries gen gt m es0 h k = Inr m'
     \<Longrightarrow> \<forall>p \<in> set (concat (map entry_paths es0)). contains (registry m) p
     \<Longrightarrow> registry m' = registry m \<and> minted m' = minted m"
proof -
  let ?P = "\<lambda>m pth es prnt. \<forall>h' m'. updateDirectoryAssets gen gt m pth es prnt = Inr (h', m')
              \<longrightarrow> (\<forall>p \<in> set (entry_paths (Dir pth es)). contains (registry m) p)
              \<longrightarrow> registry m' = registry m \<and> minted m' = minted m"
  let ?Q = "\<lambda>m es h k. \<forall>m'. scanEntries gen gt m es h k = Inr m'
              \<longrightarrow> (\<forall>p \<in> set (concat (map entry_paths es)). contains (registry m) p)
              \<longrightarrow> registry m' = registry m \<and> minted m' = minted m"
  have "?P m pth es prnt" and "?Q m es0 h k"
  proof (induction m pth es prnt and m es0 h k rule: scan_induct [where gen = gen and gt = gt])
    case (Directory m pth es prnt)
    show ?case
    proof (intro allI impI)
      fix h' m'
      assume u: "updateDirectoryAssets gen gt m pth es prnt = Inr (h', m')"
        and c: "\<forall>p \<in> set (entry_paths (Dir pth es)). contains (registry m) p"
      from u obtain k m3 where e: "enterDirectory gen m pth prnt = Inr (h', k, m3)"
        and s: "scanEntries gen gt m3 es h' k = Inr m'"
        by (rule updateDirectoryAssets_InrD)
      from c have "contains (registry m) pth" by simp
      with e have 3: "registry m3 = registry m" "minted m3 = minted m"
        by (rule enterDirectory_registered_same)+
      from c have "\<forall>p \<in> set (concat (map entry_paths es)). contains (registry m3) p"
        by (simp add: 3)
      with Directory [OF e] s have "registry m' = registry m3 \<and> minted m' = minted m3"
        by blast
      with 3 show "registry m' = registry m \<and> minted m' = minted m" by simp
    qed
  next
    case (Nil m h k)
    show ?case by (auto dest: scanEntries_Nil_Inr)
  next
    case (File m p es h k)
    show ?case
    proof (intro allI impI)
      fix m'
      assume a: "scanEntries gen gt m (File p # es) h k = Inr m'"
        and c: "\<forall>q \<in> set (concat (map entry_paths (File p # es))). contains (registry m) q"
      from a have "alive m h k \<and> scanEntries gen gt (importAsset gen gt m p h) es h k = Inr m'"
        by (rule scanEntries_File_Inr)
      then have al: "alive m h k"
        and s: "scanEntries gen gt (importAsset gen gt m p h) es h k = Inr m'"
        by simp_all
      from c have "contains (registry m) p" by simp
      then have 3: "registry (importAsset gen gt m p h) = registry m"
        "minted (importAsset gen gt m p h) = minted m"
        by (rule importAsset_registered_same)+
      from c have "\<forall>q \<in> set (concat (map entry_paths es)).
          contains (registry (importAsset gen gt m p h)) q"
        by (simp add: 3)
      with File [OF al] s have "registry m' = registry (importAsset gen gt m p h)
          \<and> minted m' = minted (importAsset gen gt m p h)"
        by blast
      with 3 show "registry m' = registry m \<and> minted m' = minted m" by simp
    qed
  next
    case (Dir m p sub es h k)
    show ?case
    proof (intro allI impI)
      fix m'
      assume a: "scanEntries gen gt m (Dir p sub # es) h k = Inr m'"
        and c: "\<forall>q \<in> set (concat (map entry_paths (Dir p sub # es))). contains (registry m) q"
      from a obtain h1 m1 where al: "alive m h k"
        and u: "updateDirectoryAssets gen gt m p sub h = Inr (h1, m1)"
        and s: "scanEntries gen gt m1 es h k = Inr m'"
        by (rule scanEntries_Dir_Inr)
      from c have "\<forall>q \<in> set (entry_paths (Dir p sub)). contains (registry m) q"
        by (simp del: entry_paths.simps)
      with Dir(1) [OF al] u have 3: "registry m1 = registry m \<and> minted m1 = minted m"
        by blast
      from c have "\<forall>q \<in> set (concat (map entry_paths es)). contains (registry m1) q"
        by (simp add: 3)
      with Dir(2) [OF al u] s have "registry m' = registry m1 \<and> minted m' = minted m1"
        by blast
      with 3 show "registry m' = registry m \<and> minted m' = minted m" by simp
    qed
  qed
  then show "updateDirectoryAssets gen gt m pth es prnt = Inr (h', m')
     \<Longrightarrow> \<forall>p \<in> set (entry_paths (Dir pth es)). contains (registry m) p
     \<Longrightarrow> registry m' = registry m \<and> minted m' = minted m"
    and "scanEntries gen gt m es0 h k = Inr m'
     \<Longrightarrow> \<forall>p \<in> set (concat (map entry_paths es0)). contains (registry m) p
     \<Longrightarrow> registry m' = registry m \<and> minted m' = minted m"
    by blast+
qed

lemma scan_returns_registered_handle:
  assumes "updateDirectoryAssets gen gt m pth es prnt = Inr (h, m')"
  shows "\<exists>md. map_of (registry m') pth = Some md \<and> handle md = h"
proof -
  from assms obtain k m3 where e: "enterDirectory gen m pth prnt = Inr (h, k, m3)"
    and s: "scanEntries gen gt m3 es h k = Inr m'"
    by (rule updateDirectoryAssets_InrD)
  from enterDirectory_registered(2) [OF e] obtain md where
    "map_of (registry m3) pth = Some md" "handle md = h" by blast
  with registryGrows_scan(2) [OF s] show ?thesis
    by (auto simp: registryGrows_def)
qed

subsection \<open>Children and parents after a scan\<close>

lemma registeredHandle_stable:
  assumes "registryGrows m m'" and "contains (registry m) p"
  shows "registeredHandle m' p = registeredHandle m p"
  using assms by (auto simp: registryGrows_def contains_def registeredHandle_def)

lemma registeredHandle_stable_set:
  assumes "registryGrows m m'" and "\<forall>p \<in> set ps. contains (registry m) p"
  shows "map (registeredHandle m') ps = map (registeredHandle m) ps"
  using assms by (simp add: registeredHandle_stable)

lemma importAsset_store:
  fixes gen gt m p prnt
  defines "m1 \<equiv> importAsset gen gt m p prnt"
  shows "\<exists>a. map_of (assets m1) = (map_of (assets m))(registeredHandle m1 p \<mapsto> a)
           \<and> parent (runtimeData a) = prnt \<and> path (metadata a) = p"
proof -
  let ?a = "fst (createEmptyAsset gen m p (gt p) prnt)"
  from importAsset_registered(2) [of gen gt m p prnt]
  have "registeredHandle m1 p = handle (metadata ?a)"
    by (auto simp: registeredHandle_def m1_def)
  then have "map_of (assets m1) = (map_of (assets m))(registeredHandle m1 p \<mapsto> ?a)"
    by (simp add: m1_def importAsset_assets map_of_assign)
  then show ?thesis
    by (auto simp: createEmptyAsset_fields)
qed

lemma enterDirectory_handle:
  assumes "enterDirectory gen m pth prnt = Inr (h, k, m3)"
  shows "registeredHandle m3 pth = h"
  using enterDirectory_registered(2) [OF assms] by (auto simp: registeredHandle_def)

lemma enterDirectory_store:
  assumes "enterDirectory gen m pth prnt = Inr (h, k, m3)"
  shows "x \<noteq> h \<Longrightarrow> x \<noteq> prnt \<Longrightarrow> map_of (assets m3) x = map_of (assets m) x"
    and "prnt \<noteq> h \<Longrightarrow> map_of (assets m3) h = Some (newDirectory gen m pth prnt)"
    and "prnt \<noteq> h \<Longrightarrow> \<not> isValid prnt \<Longrightarrow> map_of (assets m3) prnt = map_of (assets m) prnt"
    and "prnt \<noteq> h \<Longrightarrow> isValid prnt \<Longrightarrow>
           \<exists>pa cs. map_of (assets m) prnt = Some pa \<and> children pa = Some cs
             \<and> map_of (assets m3) prnt = Some (pa\<lparr>children := Some (cs @ [h])\<rparr>)"
proof -
  let ?d = "newDirectory gen m pth prnt"
  let ?m2 = "storeAsset ?d (registerIfNeeded ?d (snd (createEmptyAsset gen m pth Directory prnt)))"
  from assms have h: "h = handle (metadata ?d)"
    and m3: "if isValid prnt then addChild prnt h ?m2 = Inr m3 else m3 = ?m2"
    by (auto simp: enterDirectory_unfold Let_def split: sum.splits if_splits)
  have a2: "map_of (assets ?m2) = (map_of (assets m))(h \<mapsto> ?d)"
    by (simp add: storeAsset_frame registerIfNeeded_frame createEmptyAsset_frame map_of_assign h)
  show "map_of (assets m3) x = map_of (assets m) x" if "x \<noteq> h" "x \<noteq> prnt"
  proof (cases "isValid prnt")
    case True
    with m3 have "addChild prnt h ?m2 = Inr m3" by simp
    then obtain p cs where "assets m3 = assign prnt (p\<lparr>children := Some (cs @ [h])\<rparr>) (assets ?m2)"
      by (rule addChild_assets)
    with that a2 show ?thesis by (simp add: map_of_assign)
  next
    case False
    with m3 that a2 show ?thesis by simp
  qed
  show "map_of (assets m3) h = Some ?d" if "prnt \<noteq> h"
  proof (cases "isValid prnt")
    case True
    with m3 have "addChild prnt h ?m2 = Inr m3" by simp
    then obtain p cs where "assets m3 = assign prnt (p\<lparr>children := Some (cs @ [h])\<rparr>) (assets ?m2)"
      by (rule addChild_assets)
    with that a2 show ?thesis by (simp add: map_of_assign)
  next
    case False
    with m3 that a2 show ?thesis by simp
  qed
  show "map_of (assets m3) prnt = map_of (assets m) prnt" if "prnt \<noteq> h" "\<not> isValid prnt"
    using m3 that a2 by simp
  show "\<exists>pa cs. map_of (assets m) prnt = Some pa \<and> children pa = Some cs
             \<and> map_of (assets m3) prnt = Some (pa\<lparr>children := Some (cs @ [h])\<rparr>)"
    if "prnt \<noteq> h" "isValid prnt"
  proof -
    from m3 that have "addChild prnt h ?m2 = Inr m3" by simp
    then obtain p cs where "map_of (assets ?m2) prnt = Some p" "children p = Some cs"
      "assets m3 = assign prnt (p\<lparr>children := Some (cs @ [h])\<rparr>) (assets ?m2)"
      by (rule addChild_assets)
    with that a2 show ?thesis by (simp add: map_of_assign)
  qed
qed


lemma scan_store_frame:
  "updateDirectoryAssets gen gt m pth es prnt = Inr (h', m')
     \<Longrightarrow> x \<notin> registeredHandle m' ` set (entry_paths (Dir pth es)) \<Longrightarrow> x \<noteq> prnt
     \<Longrightarrow> map_of (assets m') x = map_of (assets m) x"
  "scanEntries gen gt m es0 h k = Inr m'
     \<Longrightarrow> x \<notin> registeredHandle m' ` set (concat (map entry_paths es0)) \<Longrightarrow> x \<noteq> h
     \<Longrightarrow> map_of (assets m') x = map_of (assets m) x"
proof -
  let ?P = "\<lambda>m pth es prnt. \<forall>h' m'. updateDirectoryAssets gen gt m pth es prnt = Inr (h', m')
              \<longrightarrow> x \<notin> registeredHandle m' ` set (entry_paths (Dir pth es)) \<longrightarrow> x \<noteq> prnt
              \<longrightarrow> map_of (assets m') x = map_of (assets m) x"
  let ?Q = "\<lambda>m es h k. \<forall>m'. scanEntries gen gt m es h k = Inr m'
              \<longrightarrow> x \<notin> registeredHandle m' ` set (concat (map entry_paths es)) \<longrightarrow> x \<noteq> h
              \<longrightarrow> map_of (assets m') x = map_of (assets m) x"
  have "?P m pth es prnt" and "?Q m es0 h k"
  proof (induction m pth es prnt and m es0 h k rule: scan_induct [where gen = gen and gt = gt])
    case (Directory m pth es prnt)
    show ?case
    proof (intro allI impI)
      fix h' m'
      assume u: "updateDirectoryAssets gen gt m pth es prnt = Inr (h', m')"
        and x: "x \<notin> registeredHandle m' ` set (entry_paths (Dir pth es))" and xp: "x \<noteq> prnt"
      from u obtain k m3 where e: "enterDirectory gen m pth prnt = Inr (h', k, m3)"
        and s: "scanEntries gen gt m3 es h' k = Inr m'"
        by (rule updateDirectoryAssets_InrD)
      have "registeredHandle m' pth = registeredHandle m3 pth"
        using registryGrows_scan(2) [OF s] enterDirectory_contains [OF e]
        by (rule registeredHandle_stable)
      with enterDirectory_handle [OF e] x have xh: "x \<noteq> h'" by auto
      from x have "x \<notin> registeredHandle m' ` set (concat (map entry_paths es))" by auto
      with Directory [OF e] s xh have "map_of (assets m') x = map_of (assets m3) x" by blast
      also from e xh xp have "\<dots> = map_of (assets m) x" by (rule enterDirectory_store(1))
      finally show "map_of (assets m') x = map_of (assets m) x" .
    qed
  next
    case (Nil m h k)
    show ?case by (auto dest: scanEntries_Nil_Inr)
  next
    case (File m p es h k)
    show ?case
    proof (intro allI impI)
      fix m'
      assume a: "scanEntries gen gt m (File p # es) h k = Inr m'"
        and x: "x \<notin> registeredHandle m' ` set (concat (map entry_paths (File p # es)))"
        and xh: "x \<noteq> h"
      let ?m1 = "importAsset gen gt m p h"
      from a have "alive m h k \<and> scanEntries gen gt ?m1 es h k = Inr m'"
        by (rule scanEntries_File_Inr)
      then have al: "alive m h k" and s: "scanEntries gen gt ?m1 es h k = Inr m'"
        by simp_all
      have "registeredHandle m' p = registeredHandle ?m1 p"
        using registryGrows_scan(2) [OF s] importAsset_contains
        by (rule registeredHandle_stable)
      with x have xc: "x \<noteq> registeredHandle ?m1 p" by auto
      from x have "x \<notin> registeredHandle m' ` set (concat (map entry_paths es))" by auto
      with File [OF al] s xh have "map_of (assets m') x = map_of (assets ?m1) x" by blast
      also from importAsset_store [of gen gt m p h] xc have "\<dots> = map_of (assets m) x" by auto
      finally show "map_of (assets m') x = map_of (assets m) x" .
    qed
  next
    case (Dir m p sub es h k)
    show ?case
    proof (intro allI impI)
      fix m'
      assume a: "scanEntries gen gt m (Dir p sub # es) h k = Inr m'"
        and x: "x \<notin> registeredHandle m' ` set (concat (map entry_paths (Dir p sub # es)))"
        and xh: "x \<noteq> h"
      from a obtain h1 m1 where al: "alive m h k"
        and u: "updateDirectoryAssets gen gt m p sub h = Inr (h1, m1)"
        and s: "scanEntries gen gt m1 es h k = Inr m'"
        by (rule scanEntries_Dir_Inr)
      have "map (registeredHandle m') (entry_paths (Dir p sub))
              = map (registeredHandle m1) (entry_paths (Dir p sub))"
        using registryGrows_scan(2) [OF s] scan_registers(1) [OF u]
        by (rule registeredHandle_stable_set)
      then have "registeredHandle m' ` set (entry_paths (Dir p sub))
              = registeredHandle m1 ` set (entry_paths (Dir p sub))"
        by (metis image_set)
      with x have "x \<notin> registeredHandle m1 ` set (entry_paths (Dir p sub))"
        by (auto simp del: entry_paths.simps)
      with Dir(1) [OF al] u xh have 1: "map_of (assets m1) x = map_of (assets m) x" by blast
      from x have "x \<notin> registeredHandle m' ` set (concat (map entry_paths es))" by auto
      with Dir(2) [OF al u] s xh have "map_of (assets m') x = map_of (assets m1) x" by blast
      with 1 show "map_of (assets m') x = map_of (assets m) x" by simp
    qed
  qed
  then show "updateDirectoryAssets gen gt m pth es prnt = Inr (h', m')
     \<Longrightarrow> x \<notin> registeredHandle m' ` set (entry_paths (Dir pth es)) \<Longrightarrow> x \<noteq> prnt
     \<Longrightarrow> map_of (assets m') x = map_of (assets m) x"
    and "scanEntries gen gt m es0 h k = Inr m'
     \<Longrightarrow> x \<notin> registeredHandle m' ` set (concat (map entry_paths es0)) \<Longrightarrow> x \<noteq> h
     \<Longrightarrow> map_of (assets m') x = map_of (assets m) x"
    by blast+
qed


lemma scan_handle_registered:
  assumes "updateDirectoryAssets gen gt m pth es prnt = Inr (h, m')"
  shows "registeredHandle m' pth = h"
  using scan_returns_registered_handle [OF assms] by (auto simp: registeredHandle_def)

lemma scan_links_parent:
  assumes u: "updateDirectoryAssets gen gt m pth es prnt = Inr (h, m')"
    and p: "prnt \<notin> registeredHandle m' ` set (entry_paths (Dir pth es))"
  shows "\<not> isValid prnt \<Longrightarrow> map_of (assets m') prnt = map_of (assets m) prnt"
    and "isValid prnt \<Longrightarrow> map_of (assets m) prnt = Some pa \<Longrightarrow> children pa = Some cs
           \<Longrightarrow> map_of (assets m') prnt = Some (pa\<lparr>children := Some (cs @ [h])\<rparr>)"
proof -
  from u obtain k m3 where e: "enterDirectory gen m pth prnt = Inr (h, k, m3)"
    and s: "scanEntries gen gt m3 es h k = Inr m'"
    by (rule updateDirectoryAssets_InrD)
  from scan_handle_registered [OF u] p have ph: "prnt \<noteq> h" by auto
  from p have "prnt \<notin> registeredHandle m' ` set (concat (map entry_paths es))" by auto
  with s have same: "map_of (assets m') prnt = map_of (assets m3) prnt"
    using ph by (rule scan_store_frame(2))
  show "map_of (assets m') prnt = map_of (assets m) prnt" if "\<not> isValid prnt"
    using same enterDirectory_store(3) [OF e ph that] by simp
  show "map_of (assets m') prnt = Some (pa\<lparr>children := Some (cs @ [h])\<rparr>)"
    if "isValid prnt" "map_of (assets m) prnt = Some pa" "children pa = Some cs"
    using same enterDirectory_store(4) [OF e ph that(1)] that(2,3) by auto
qed

lemma children_update_same: "children d = Some cs \<Longrightarrow> d\<lparr>children := Some cs\<rparr> = d"
  by (cases d) simp

lemma scanEntries_children:
  assumes "scanEntries gen gt m es h k = Inr m'"
    and "h \<notin> registeredHandle m' ` set (concat (map entry_paths es))"
    and "map_of (assets m) h = Some d" and "children d = Some cs"
  shows "map_of (assets m') h
           = Some (d\<lparr>children := Some (cs @ (if isValid h then subdirHandles m' es else []))\<rparr>)"
  using assms
proof (induction es arbitrary: m d cs)
  case Nil
  from Nil.prems(1) have "m' = m" by (rule scanEntries_Nil_Inr)
  with Nil.prems(3,4) show ?case by (simp add: subdirHandles_def children_update_same)
next
  case (Cons e es)
  show ?case
  proof (cases e)
    case (File p)
    let ?m1 = "importAsset gen gt m p h"
    from Cons.prems(1) have "scanEntries gen gt m (File p # es) h k = Inr m'"
      unfolding File .
    then have "alive m h k \<and> scanEntries gen gt ?m1 es h k = Inr m'"
      by (rule scanEntries_File_Inr)
    then have s: "scanEntries gen gt ?m1 es h k = Inr m'" by simp
    have "registeredHandle m' p = registeredHandle ?m1 p"
      using registryGrows_scan(2) [OF s] importAsset_contains
      by (rule registeredHandle_stable)
    with Cons.prems(2) File have "h \<noteq> registeredHandle ?m1 p" by auto
    with importAsset_store [of gen gt m p h] Cons.prems(3)
    have d: "map_of (assets ?m1) h = Some d" by auto
    from Cons.prems(2) have "h \<notin> registeredHandle m' ` set (concat (map entry_paths es))"
      by auto
    from Cons.IH [OF s this d Cons.prems(4)] File show ?thesis
      by (simp add: subdirHandles_def)
  next
    case (Dir p sub)
    from Cons.prems(1) have "scanEntries gen gt m (Dir p sub # es) h k = Inr m'"
      unfolding Dir .
    then obtain h1 m1 where
      u: "updateDirectoryAssets gen gt m p sub h = Inr (h1, m1)"
      and s: "scanEntries gen gt m1 es h k = Inr m'"
      by (rule scanEntries_Dir_Inr)
    have st: "map (registeredHandle m') (entry_paths (Dir p sub))
              = map (registeredHandle m1) (entry_paths (Dir p sub))"
      using registryGrows_scan(2) [OF s] scan_registers(1) [OF u]
      by (rule registeredHandle_stable_set)
    then have "registeredHandle m' ` set (entry_paths (Dir p sub))
              = registeredHandle m1 ` set (entry_paths (Dir p sub))"
      by (metis image_set)
    with Cons.prems(2) Dir have hp: "h \<notin> registeredHandle m1 ` set (entry_paths (Dir p sub))"
      by (auto simp del: entry_paths.simps)
    from st scan_handle_registered [OF u] have h1: "registeredHandle m' p = h1" by simp
    from Cons.prems(2) have rest: "h \<notin> registeredHandle m' ` set (concat (map entry_paths es))"
      by auto
    show ?thesis
    proof (cases "isValid h")
      case True
      with scan_links_parent(2) [OF u hp] Cons.prems(3,4)
      have "map_of (assets m1) h = Some (d\<lparr>children := Some (cs @ [h1])\<rparr>)" by blast
      from Cons.IH [OF s rest this] True Dir h1 show ?thesis
        by (simp add: subdirHandles_def)
    next
      case False
      with scan_links_parent(1) [OF u hp] Cons.prems(3)
      have "map_of (assets m1) h = Some d" by simp
      from Cons.IH [OF s rest this Cons.prems(4)] False show ?thesis by simp
    qed
  qed
qed

lemma scan_root_stored:
  assumes u: "updateDirectoryAssets gen gt m pth es prnt = Inr (h, m')"
    and d: "distinct (map (registeredHandle m') (entry_paths (Dir pth es)))"
    and p: "prnt \<notin> registeredHandle m' ` set (entry_paths (Dir pth es))"
  shows "map_of (assets m') h
           = Some ((newDirectory gen m pth prnt)
                     \<lparr>children := Some (if isValid h then subdirHandles m' es else [])\<rparr>)"
proof -
  from u obtain k m3 where e: "enterDirectory gen m pth prnt = Inr (h, k, m3)"
    and s: "scanEntries gen gt m3 es h k = Inr m'"
    by (rule updateDirectoryAssets_InrD)
  from scan_handle_registered [OF u] p have ph: "prnt \<noteq> h" by auto
  from scan_handle_registered [OF u] d
  have hn: "h \<notin> registeredHandle m' ` set (concat (map entry_paths es))" by auto
  from e ph have "map_of (assets m3) h = Some (newDirectory gen m pth prnt)"
    by (rule enterDirectory_store(2))
  from scanEntries_children [OF s hn this, of "[]"] show ?thesis
    by (simp add: newDirectory_fields)
qed


lemma distinct_concat_apart:
  assumes "distinct (map f (concat (map g es)))"
    and "e \<in> set es" and "e' \<in> set es" and "e \<noteq> e'"
    and "x \<in> set (g e)" and "y \<in> set (g e')"
  shows "f x \<noteq> f y"
  using assms
proof (induction es)
  case Nil
  then show ?case by simp
next
  case (Cons a es)
  from Cons.prems(1) have d: "distinct (map f (concat (map g es)))"
    and apart: "f ` set (g a) \<inter> f ` set (concat (map g es)) = {}"
    by auto
  consider "e = a" "e' \<in> set es" | "e' = a" "e \<in> set es" | "e \<in> set es" "e' \<in> set es"
    using Cons.prems(2,3,4) by auto
  then show ?case
  proof cases
    case 1
    with Cons.prems(5,6) have "f x \<in> f ` set (g a)" "f y \<in> f ` set (concat (map g es))"
      by auto
    with apart show ?thesis by (metis IntI empty_iff)
  next
    case 2
    with Cons.prems(5,6) have "f y \<in> f ` set (g a)" "f x \<in> f ` set (concat (map g es))"
      by auto
    with apart show ?thesis by (metis IntI empty_iff)
  next
    case 3
    with Cons.IH [OF d] Cons.prems(4,5,6) show ?thesis by blast
  qed
qed

lemma entry_path_in_paths: "entry_path e \<in> set (entry_paths e)"
  by (cases e) simp_all

lemma scanEntries_parents:
  assumes "scanEntries gen gt m es h k = Inr m'"
    and "distinct (map (registeredHandle m') (concat (map entry_paths es)))"
    and "h \<notin> registeredHandle m' ` set (concat (map entry_paths es))"
    and "e \<in> set es"
  shows "\<exists>a. map_of (assets m') (registeredHandle m' (entry_path e)) = Some a
           \<and> parent (runtimeData a) = h \<and> path (metadata a) = entry_path e"
  using assms
proof (induction es arbitrary: m)
  case Nil
  then show ?case by simp
next
  case (Cons f es)
  from Cons.prems(2) have dt: "distinct (map (registeredHandle m') (concat (map entry_paths es)))"
    by simp
  from Cons.prems(3) have ht: "h \<notin> registeredHandle m' ` set (concat (map entry_paths es))"
    by auto
  show ?case
  proof (cases f)
    case (File p)
    let ?m1 = "importAsset gen gt m p h"
    from Cons.prems(1) have "scanEntries gen gt m (File p # es) h k = Inr m'"
      unfolding File .
    then have "alive m h k \<and> scanEntries gen gt ?m1 es h k = Inr m'"
      by (rule scanEntries_File_Inr)
    then have s: "scanEntries gen gt ?m1 es h k = Inr m'" by simp
    show ?thesis
    proof (cases "e = f")
      case True
      have r: "registeredHandle m' p = registeredHandle ?m1 p"
        using registryGrows_scan(2) [OF s] importAsset_contains
        by (rule registeredHandle_stable)
      from importAsset_store [of gen gt m p h] obtain a where
        a: "map_of (assets ?m1) (registeredHandle ?m1 p) = Some a"
          "parent (runtimeData a) = h" "path (metadata a) = p"
        by auto
      from Cons.prems(2) File
      have 1: "registeredHandle m' p \<notin> registeredHandle m' ` set (concat (map entry_paths es))"
        by simp
      from Cons.prems(3) File have 2: "registeredHandle m' p \<noteq> h" by auto
      from s 1 2 have "map_of (assets m') (registeredHandle m' p)
          = map_of (assets ?m1) (registeredHandle m' p)"
        by (rule scan_store_frame(2))
      with a r True File show ?thesis by simp
    next
      case False
      with Cons.prems(4) have "e \<in> set es" by simp
      with Cons.IH [OF s dt ht] show ?thesis by blast
    qed
  next
    case (Dir p sub)
    from Cons.prems(1) have "scanEntries gen gt m (Dir p sub # es) h k = Inr m'"
      unfolding Dir .
    then obtain h1 m1 where
      u: "updateDirectoryAssets gen gt m p sub h = Inr (h1, m1)"
      and s: "scanEntries gen gt m1 es h k = Inr m'"
      by (rule scanEntries_Dir_Inr)
    show ?thesis
    proof (cases "e = f")
      case True
      have st: "map (registeredHandle m') (entry_paths (Dir p sub))
              = map (registeredHandle m1) (entry_paths (Dir p sub))"
        using registryGrows_scan(2) [OF s] scan_registers(1) [OF u]
        by (rule registeredHandle_stable_set)
      then have si: "registeredHandle m' ` set (entry_paths (Dir p sub))
              = registeredHandle m1 ` set (entry_paths (Dir p sub))"
        by (metis image_set)
      from Cons.prems(2) Dir
      have "distinct (map (registeredHandle m') (entry_paths (Dir p sub)))"
        by (simp del: entry_paths.simps)
      then have d1: "distinct (map (registeredHandle m1) (entry_paths (Dir p sub)))"
        unfolding st .
      from Cons.prems(3) Dir si
      have p1: "h \<notin> registeredHandle m1 ` set (entry_paths (Dir p sub))"
        by (auto simp del: entry_paths.simps)
      from scan_root_stored [OF u d1 p1] obtain a where
        a: "map_of (assets m1) h1 = Some a" "parent (runtimeData a) = h" "path (metadata a) = p"
        by (auto simp: newDirectory_fields)
      from st scan_handle_registered [OF u] have h1: "registeredHandle m' p = h1" by simp
      from Cons.prems(2) Dir h1
      have 1: "h1 \<notin> registeredHandle m' ` set (concat (map entry_paths es))"
        by auto
      from Cons.prems(3) Dir h1 have 2: "h1 \<noteq> h" by auto
      from s 1 2 have "map_of (assets m') h1 = map_of (assets m1) h1"
        by (rule scan_store_frame(2))
      with a h1 True Dir show ?thesis by simp
    next
      case False
      with Cons.prems(4) have "e \<in> set es" by simp
      with Cons.IH [OF s dt ht] show ?thesis by blast
    qed
  qed
qed

text \<open>
  C4, amended. Let a scan of a directory return, let the registry then hold pairwise
  distinct handles for the paths of the tree, the parent's handle not among them, and
  let the directory's handle be valid. Then the directory's children are exactly the
  handles of its direct sub-directories, in the order of enumeration; every direct
  entry, sub-directory or file, has a live asset for its path under its handle, whose
  parent field is the directory's handle; and the handle of a file is not among the
  children.
\<close>

theorem updateDirectoryAssets_links_subdirectories:
  assumes scan: "updateDirectoryAssets gen gt m pth es prnt = Inr (h, m')"
    and uniq: "distinct (map (registeredHandle m') (entry_paths (Dir pth es)))"
    and outside: "prnt \<notin> registeredHandle m' ` set (entry_paths (Dir pth es))"
    and valid: "isValid h"
  shows "\<exists>d. map_of (assets m') h = Some d
           \<and> children d = Some (map (registeredHandle m') (map entry_path (filter is_directory es)))
           \<and> (\<forall>e \<in> set es. \<exists>a.
                 map_of (assets m') (registeredHandle m' (entry_path e)) = Some a
                 \<and> parent (runtimeData a) = h \<and> path (metadata a) = entry_path e
                 \<and> (\<not> is_directory e \<longrightarrow> registeredHandle m' (entry_path e)
                        \<notin> set (map (registeredHandle m') (map entry_path (filter is_directory es)))))"
proof -
  let ?d = "(newDirectory gen m pth prnt)\<lparr>children := Some (subdirHandles m' es)\<rparr>"
  from scan_root_stored [OF scan uniq outside] valid
  have root: "map_of (assets m') h = Some ?d" by simp
  have kids: "children ?d = Some (map (registeredHandle m') (map entry_path (filter is_directory es)))"
    by (simp add: subdirHandles_def)
  from scan obtain k m3 where s: "scanEntries gen gt m3 es h k = Inr m'"
    by (rule updateDirectoryAssets_InrD)
  from uniq have dt: "distinct (map (registeredHandle m') (concat (map entry_paths es)))"
    by simp
  from scan_handle_registered [OF scan] uniq
  have hn: "h \<notin> registeredHandle m' ` set (concat (map entry_paths es))" by auto
  have each: "\<exists>a. map_of (assets m') (registeredHandle m' (entry_path e)) = Some a
                 \<and> parent (runtimeData a) = h \<and> path (metadata a) = entry_path e
                 \<and> (\<not> is_directory e \<longrightarrow> registeredHandle m' (entry_path e)
                        \<notin> set (map (registeredHandle m') (map entry_path (filter is_directory es))))"
    if e: "e \<in> set es" for e
  proof -
    have "registeredHandle m' (entry_path e)
            \<notin> set (map (registeredHandle m') (map entry_path (filter is_directory es)))"
      if f: "\<not> is_directory e"
    proof
      assume "registeredHandle m' (entry_path e)
            \<in> set (map (registeredHandle m') (map entry_path (filter is_directory es)))"
      then obtain e' where e': "e' \<in> set es" "is_directory e'"
        and eq: "registeredHandle m' (entry_path e) = registeredHandle m' (entry_path e')"
        by auto
      from f e'(2) have "e \<noteq> e'" by auto
      with dt e e'(1) have "registeredHandle m' (entry_path e) \<noteq> registeredHandle m' (entry_path e')"
        using entry_path_in_paths entry_path_in_paths by (rule distinct_concat_apart)
      with eq show False by simp
    qed
    with scanEntries_parents [OF s dt hn e] show ?thesis by blast
  qed
  from root kids each show ?thesis by blast
qed


text \<open>
  C4, as claimed, fails: after the scan of \<^verbatim>\<open>/root\<close> with the files
  \<^verbatim>\<open>b.txt\<close> and \<^verbatim>\<open>a.txt\<close> and the directory \<^verbatim>\<open>sub\<close>, the root has the
  handle 1 and its children are the handle 4 of \<^verbatim>\<open>sub\<close> alone; the files are live
  under the handles 2 and 3, which are not children.
\<close>

theorem updateDirectoryAssets_children_without_files:
  "\<not> isl example_scan1
   \<and> fst (projr example_scan1) = 1
   \<and> map_option children (map_of (assets (snd (projr example_scan1))) 1) = Some (Some [4])
   \<and> map_option (\<lambda>a. path (metadata a)) (map_of (assets (snd (projr example_scan1))) 2)
        = Some ''/root/b.txt''
   \<and> map_option (\<lambda>a. path (metadata a)) (map_of (assets (snd (projr example_scan1))) 3)
        = Some ''/root/a.txt''
   \<and> map_option (\<lambda>a. path (metadata a)) (map_of (assets (snd (projr example_scan1))) 4)
        = Some ''/root/sub''"
  by code_simp

theorem updateDirectoryAssets_links_subdirectories_witness:
  "\<not> isl example_scan1
   \<and> isValid (fst (projr example_scan1))
   \<and> distinct (map (registeredHandle (snd (projr example_scan1)))
                 (entry_paths (Dir ''/root'' example_entries)))
   \<and> (\<exists>d. map_of (assets (snd (projr example_scan1))) (fst (projr example_scan1)) = Some d
           \<and> children d = Some [4])
   \<and> (\<exists>a. map_of (assets (snd (projr example_scan1))) 2 = Some a \<and> parent (runtimeData a) = 1)"
proof -
  let ?h = "fst (projr example_scan1)" and ?m = "snd (projr example_scan1)"
  have n: "\<not> isl example_scan1" by code_simp
  then have f: "updateDirectoryAssets example_gen (\<lambda>p. Model) (newAssetManager ''/root'') ''/root''
       example_entries UUID_None = Inr (?h, ?m)"
    by (simp add: example_scan1_def)
  have d: "distinct (map (registeredHandle ?m) (entry_paths (Dir ''/root'' example_entries)))"
    by code_simp
  have o: "UUID_None \<notin> registeredHandle ?m ` set (entry_paths (Dir ''/root'' example_entries))"
    by code_simp
  have v: "isValid ?h" by code_simp
  have h: "?h = 1" by code_simp
  have k: "map (registeredHandle ?m) (map entry_path (filter is_directory example_entries)) = [4]"
    by code_simp
  have b: "File ''/root/b.txt'' \<in> set example_entries"
    by (simp add: example_entries_def)
  have r: "registeredHandle ?m ''/root/b.txt'' = 2" by code_simp
  from updateDirectoryAssets_links_subdirectories [OF f d o v] obtain dd where
    dd: "map_of (assets ?m) ?h = Some dd" "children dd = Some [4]"
    and each: "\<forall>e \<in> set example_entries. \<exists>a.
          map_of (assets ?m) (registeredHandle ?m (entry_path e)) = Some a
          \<and> parent (runtimeData a) = ?h"
    unfolding k by blast
  from each b r h have "\<exists>a. map_of (assets ?m) 2 = Some a \<and> parent (runtimeData a) = 1"
    by fastforce
  with n v d dd show ?thesis by blast
qed

subsection \<open>Compaction after a scan keeps the entries of the tree\<close>

lemma storeGrows_scan:
  "updateDirectoryAssets gen gt m pth es prnt = Inr (h', m') \<Longrightarrow> storeGrows m m'"
  "scanEntries gen gt m es0 h k = Inr m' \<Longrightarrow> storeGrows m m'"
proof -
  have r: "storeGrows a a" for a by (simp add: storeGrows_def)
  have t: "storeGrows a b \<Longrightarrow> storeGrows b c \<Longrightarrow> storeGrows a c" for a b c
    by (auto simp: storeGrows_def)
  have e: "enterDirectory gen a p q = Inr (x, y, b) \<Longrightarrow> storeGrows a b" for a p q x y b
    by (auto simp: storeGrows_def dest!: enterDirectory_keys)
  have i: "storeGrows a (importAsset gen gt a p q)" for a p q
    by (auto simp: storeGrows_def importAsset_assets keys_assign)
  show "updateDirectoryAssets gen gt m pth es prnt = Inr (h', m') \<Longrightarrow> storeGrows m m'"
    by (rule scan_rel(1) [where R = storeGrows and gen = gen and gt = gt, OF r t e i])
  show "scanEntries gen gt m es0 h k = Inr m' \<Longrightarrow> storeGrows m m'"
    by (rule scan_rel(2) [where R = storeGrows and gen = gen and gt = gt, OF r t e i])
qed

lemma pathLive_later:
  assumes "pathLive m p" and "contains (registry m) p" and "registryGrows m m'" and "storeGrows m m'"
  shows "pathLive m' p"
  using assms registeredHandle_stable [OF assms(3,2)]
  by (auto simp: pathLive_def storeGrows_def contains_keys)

lemma pathLive_importAsset: "pathLive (importAsset gen gt m p prnt) p"
  using importAsset_store [of gen gt m p prnt]
  by (auto simp: pathLive_def contains_def)

lemma pathLive_enterDirectory:
  assumes "enterDirectory gen m pth prnt = Inr (h, k, m3)"
  shows "pathLive m3 pth"
  using enterDirectory_keys [OF assms] enterDirectory_handle [OF assms]
  by (simp add: pathLive_def contains_keys)

lemma scan_live:
  "updateDirectoryAssets gen gt m pth es prnt = Inr (h', m')
     \<Longrightarrow> \<forall>p \<in> set (entry_paths (Dir pth es)). pathLive m' p"
  "scanEntries gen gt m es0 h k = Inr m'
     \<Longrightarrow> \<forall>p \<in> set (concat (map entry_paths es0)). pathLive m' p"
proof -
  let ?P = "\<lambda>m pth es prnt. \<forall>h' m'. updateDirectoryAssets gen gt m pth es prnt = Inr (h', m')
              \<longrightarrow> (\<forall>p \<in> set (entry_paths (Dir pth es)). pathLive m' p)"
  let ?Q = "\<lambda>m es h k. \<forall>m'. scanEntries gen gt m es h k = Inr m'
              \<longrightarrow> (\<forall>p \<in> set (concat (map entry_paths es)). pathLive m' p)"
  have "?P m pth es prnt" and "?Q m es0 h k"
  proof (induction m pth es prnt and m es0 h k rule: scan_induct [where gen = gen and gt = gt])
    case (Directory m pth es prnt)
    show ?case
    proof (intro allI impI)
      fix h' m'
      assume "updateDirectoryAssets gen gt m pth es prnt = Inr (h', m')"
      then obtain k m3 where e: "enterDirectory gen m pth prnt = Inr (h', k, m3)"
        and s: "scanEntries gen gt m3 es h' k = Inr m'"
        by (rule updateDirectoryAssets_InrD)
      have "pathLive m' pth"
        using pathLive_enterDirectory [OF e] enterDirectory_contains [OF e]
          registryGrows_scan(2) [OF s] storeGrows_scan(2) [OF s]
        by (rule pathLive_later)
      moreover from Directory [OF e] s
      have "\<forall>p \<in> set (concat (map entry_paths es)). pathLive m' p" by blast
      ultimately show "\<forall>p \<in> set (entry_paths (Dir pth es)). pathLive m' p"
        by simp
    qed
  next
    case (Nil m h k)
    show ?case by simp
  next
    case (File m p es h k)
    show ?case
    proof (intro allI impI)
      fix m'
      assume "scanEntries gen gt m (File p # es) h k = Inr m'"
      then have "alive m h k \<and> scanEntries gen gt (importAsset gen gt m p h) es h k = Inr m'"
        by (rule scanEntries_File_Inr)
      then have al: "alive m h k"
        and s: "scanEntries gen gt (importAsset gen gt m p h) es h k = Inr m'"
        by simp_all
      have "pathLive m' p"
        using pathLive_importAsset importAsset_contains
          registryGrows_scan(2) [OF s] storeGrows_scan(2) [OF s]
        by (rule pathLive_later)
      moreover from File [OF al] s
      have "\<forall>p \<in> set (concat (map entry_paths es)). pathLive m' p" by blast
      ultimately show "\<forall>q \<in> set (concat (map entry_paths (File p # es))). pathLive m' q"
        by simp
    qed
  next
    case (Dir m p sub es h k)
    show ?case
    proof (intro allI impI)
      fix m'
      assume "scanEntries gen gt m (Dir p sub # es) h k = Inr m'"
      then obtain h1 m1 where al: "alive m h k"
        and u: "updateDirectoryAssets gen gt m p sub h = Inr (h1, m1)"
        and s: "scanEntries gen gt m1 es h k = Inr m'"
        by (rule scanEntries_Dir_Inr)
      from Dir(1) [OF al] u have "\<forall>q \<in> set (entry_paths (Dir p sub)). pathLive m1 q"
        by blast
      with scan_registers(1) [OF u] registryGrows_scan(2) [OF s] storeGrows_scan(2) [OF s]
      have "\<forall>q \<in> set (entry_paths (Dir p sub)). pathLive m' q"
        by (blast intro: pathLive_later)
      moreover from Dir(2) [OF al u] s
      have "\<forall>q \<in> set (concat (map entry_paths es)). pathLive m' q" by blast
      ultimately show "\<forall>q \<in> set (concat (map entry_paths (Dir p sub # es))). pathLive m' q"
        by (simp del: entry_paths.simps) blast
    qed
  qed
  then show "updateDirectoryAssets gen gt m pth es prnt = Inr (h', m')
     \<Longrightarrow> \<forall>p \<in> set (entry_paths (Dir pth es)). pathLive m' p"
    and "scanEntries gen gt m es0 h k = Inr m'
     \<Longrightarrow> \<forall>p \<in> set (concat (map entry_paths es0)). pathLive m' p"
    by blast+
qed

lemma map_of_filter_keeps:
  assumes "map_of al k = Some v" and "P (k, v)"
  shows "map_of (filter P al) k = Some v"
  using assms by (induction al) (auto split: if_splits)

lemma compaction_keeps_live_path:
  assumes "map_of (registry m) p = Some md" and "pathLive m p"
  shows "map_of (registry (updateAssetRegistry m)) p = Some md"
proof -
  from assms have "contains (assets m) (handle (snd (p, md)))"
    by (simp add: pathLive_def registeredHandle_def)
  with assms(1) show ?thesis
    unfolding updateAssetRegistry_def by (simp add: map_of_filter_keeps)
qed

lemma compaction_after_scan:
  assumes "updateDirectoryAssets gen gt m pth es prnt = Inr (h, m1)"
    and "p \<in> set (entry_paths (Dir pth es))"
  shows "map_of (registry (updateAssetRegistry m1)) p = map_of (registry m1) p"
    and "contains (registry (updateAssetRegistry m1)) p"
proof -
  from scan_registers(1) [OF assms(1)] assms(2) obtain md where
    md: "map_of (registry m1) p = Some md" by (auto simp: contains_def)
  moreover from scan_live(1) [OF assms(1)] assms(2) have "pathLive m1 p" by blast
  ultimately have "map_of (registry (updateAssetRegistry m1)) p = Some md"
    by (rule compaction_keeps_live_path)
  with md show "map_of (registry (updateAssetRegistry m1)) p = map_of (registry m1) p"
    and "contains (registry (updateAssetRegistry m1)) p"
    by (simp_all add: contains_def)
qed

subsection \<open>Scanning twice: the handles\<close>

lemma updateAssetRegistry_minted: "minted (updateAssetRegistry m) = minted m"
  by (simp add: updateAssetRegistry_def)

text \<open>
  C1. When a scan of a tree has returned and the same tree is scanned again, directly or
  after \<open>updateAssetRegistry\<close>, the second scan returns the handle the first one returned,
  generates no handle and leaves the registry as it found it; every path of the tree
  has, after the second scan, the registry entry the first scan left for it, and for it
  \<open>createEmptyAsset\<close> yields the handle stored there. In any manager,
  \<open>createEmptyAsset\<close> takes the handle of a registered path from the registry without
  generating one, and generates a handle for a path that is not registered.
\<close>

theorem rescan_same_handles:
  assumes first: "updateDirectoryAssets gen gt m pth es prnt = Inr (h1, m1)"
    and between: "mb = m1 \<or> mb = updateAssetRegistry m1"
    and second: "updateDirectoryAssets gen gt mb pth es prnt' = Inr (h2, m2)"
  shows "h2 = h1 \<and> registry m2 = registry mb \<and> minted m2 = minted m1
       \<and> (\<forall>p \<in> set (entry_paths (Dir pth es)). \<exists>md.
             map_of (registry m1) p = Some md \<and> map_of (registry m2) p = Some md
             \<and> (\<forall>ty par. handle (metadata (fst (createEmptyAsset gen mb p ty par))) = handle md
                        \<and> minted (snd (createEmptyAsset gen mb p ty par)) = minted mb))
       \<and> (\<forall>mm p ty par md. map_of (registry mm) p = Some md \<longrightarrow>
             handle (metadata (fst (createEmptyAsset gen mm p ty par))) = handle md
             \<and> minted (snd (createEmptyAsset gen mm p ty par)) = minted mm)
       \<and> (\<forall>mm p ty par. map_of (registry mm) p = None \<longrightarrow>
             handle (metadata (fst (createEmptyAsset gen mm p ty par))) = gen (minted mm)
             \<and> minted (snd (createEmptyAsset gen mm p ty par)) = minted mm + 1)"
proof -
  have kept: "map_of (registry mb) p = map_of (registry m1) p \<and> contains (registry mb) p"
    if "p \<in> set (entry_paths (Dir pth es))" for p
  proof -
    from scan_registers(1) [OF first] that have "contains (registry m1) p" by blast
    with between compaction_after_scan [OF first that] show ?thesis by auto
  qed
  then have regb: "\<forall>p \<in> set (entry_paths (Dir pth es)). contains (registry mb) p"
    by blast
  with second have same: "registry m2 = registry mb \<and> minted m2 = minted mb"
    by (rule rescan_same(1))
  from between have mint: "minted mb = minted m1"
    by (auto simp: updateAssetRegistry_minted)
  have "pth \<in> set (entry_paths (Dir pth es))" by simp
  then have "map_of (registry mb) pth = map_of (registry m1) pth"
    using kept by blast
  with scan_returns_registered_handle [OF first] scan_returns_registered_handle [OF second] same
  have h: "h2 = h1" by auto
  have known: "handle (metadata (fst (createEmptyAsset gen mm p ty par))) = handle md
      \<and> minted (snd (createEmptyAsset gen mm p ty par)) = minted mm"
    if "map_of (registry mm) p = Some md" for mm p ty par md
    using that by (simp add: createEmptyAsset_handle createEmptyAsset_minted)
  have new: "handle (metadata (fst (createEmptyAsset gen mm p ty par))) = gen (minted mm)
      \<and> minted (snd (createEmptyAsset gen mm p ty par)) = minted mm + 1"
    if "map_of (registry mm) p = None" for mm p ty par
    using that by (simp add: createEmptyAsset_handle createEmptyAsset_minted)
  have paths: "\<exists>md. map_of (registry m1) p = Some md \<and> map_of (registry m2) p = Some md
             \<and> (\<forall>ty par. handle (metadata (fst (createEmptyAsset gen mb p ty par))) = handle md
                        \<and> minted (snd (createEmptyAsset gen mb p ty par)) = minted mb)"
    if p: "p \<in> set (entry_paths (Dir pth es))" for p
  proof -
    from kept [OF p] have "contains (registry mb) p" by (rule conjunct2)
    then obtain md where "map_of (registry mb) p = Some md"
      by (cases "map_of (registry mb) p") (simp_all add: contains_def)
    with kept [OF p] have md: "map_of (registry mb) p = Some md"
      "map_of (registry m1) p = Some md"
      by simp_all
    with same known [OF md(1)] show ?thesis by auto
  qed
  from h same mint paths known new show ?thesis by simp
qed

theorem rescan_same_handles_witness:
  "\<not> isl example_scan1 \<and> \<not> isl example_scan2
   \<and> fst (projr example_scan2) = fst (projr example_scan1)
   \<and> minted (snd (projr example_scan2)) = minted (snd (projr example_scan1))
   \<and> map_of (registry (snd (projr example_scan1))) ''/root/a.txt''
        = Some \<lparr>handle = 3, path = ''/root/a.txt'', type = Model\<rparr>
   \<and> map_of (registry (snd (projr example_scan2))) ''/root/a.txt''
        = Some \<lparr>handle = 3, path = ''/root/a.txt'', type = Model\<rparr>"
proof -
  have 1: "\<not> isl example_scan1" by code_simp
  have 2: "\<not> isl example_scan2" by code_simp
  have a: "map_of (registry (snd (projr example_scan1))) ''/root/a.txt''
        = Some \<lparr>handle = 3, path = ''/root/a.txt'', type = Model\<rparr>"
    by code_simp
  have p: "''/root/a.txt'' \<in> set (entry_paths (Dir ''/root'' example_entries))"
    by (simp add: example_entries_def)
  from 1 have f: "updateDirectoryAssets example_gen (\<lambda>p. Model) (newAssetManager ''/root'') ''/root''
       example_entries UUID_None = Inr (fst (projr example_scan1), snd (projr example_scan1))"
    by (simp add: example_scan1_def)
  from 2 have s: "updateDirectoryAssets example_gen (\<lambda>p. Model)
       (updateAssetRegistry (snd (projr example_scan1))) ''/root''
       example_entries UUID_None = Inr (fst (projr example_scan2), snd (projr example_scan2))"
    by (simp add: example_scan2_def)
  from rescan_same_handles [OF f _ s] p a
  have "fst (projr example_scan2) = fst (projr example_scan1)
     \<and> minted (snd (projr example_scan2)) = minted (snd (projr example_scan1))
     \<and> map_of (registry (snd (projr example_scan2))) ''/root/a.txt''
        = Some \<lparr>handle = 3, path = ''/root/a.txt'', type = Model\<rparr>"
    by fastforce
  with 1 2 a show ?thesis by simp
qed

end
